theory Spec2Isabelle
  imports Main
begin

section \<open>Values, identities and exceptions\<close>

text \<open>
  The module under verification is \<^verbatim>\<open>lintorch/core/editable_module.py\<close>. Every Python
  value is a reference; \<^verbatim>\<open>id(x)\<close> is the address of the object, so a parameter list is a
  list of addresses and "the same tensor by identity" is equality of addresses. The
  singleton \<^verbatim>\<open>None\<close> lives at one fixed address. Names lose their leading underscore,
  which an Isabelle identifier cannot start with.
\<close>

type_synonym addr = nat

definition py_None :: addr where
  "py_None = 0"

text \<open>What a \<^verbatim>\<open>GetSetParamsError\<close> reports; the formatted message is not modelled.\<close>

datatype gsp_kind =
    NotPreserved
  | CountMismatch
  | OrderMismatch nat
  | NonFloatParam nat
  | NotMember nat
  | ExcessParams "string list"

text \<open>
  The exceptions the module raises or meets. \<^verbatim>\<open>KeyboardInterrupt\<close> and \<^verbatim>\<open>SystemExit\<close>
  derive from \<^verbatim>\<open>BaseException\<close> only; every other one is an instance of \<^verbatim>\<open>Exception\<close>.
\<close>

datatype error =
    TypeError
  | RuntimeError
  | RecursionError
  | IndexError
  | KeyError
  | AttributeError
  | UnboundLocalError
  | ValueError
  | GetSetParamsError gsp_kind
  | UserException string
  | KeyboardInterrupt
  | SystemExit

fun is_Exception :: "error \<Rightarrow> bool" where
  "is_Exception KeyboardInterrupt = False"
| "is_Exception SystemExit = False"
| "is_Exception _ = True"

section \<open>The deduplication layer of EditableModule\<close>

text \<open>
  The three dictionaries \<^verbatim>\<open>_unique_params_idxs\<close>, \<^verbatim>\<open>_unique_params_maps\<close> and
  \<^verbatim>\<open>_number_of_params\<close> are created together by the first call of
  \<^verbatim>\<open>_get_unique_params_idxs\<close>; until then the instance has none of them
  (\<^verbatim>\<open>hasattr\<close> is false), which is \<open>cache = None\<close>.
\<close>

record cache_attrs =
  unique_params_idxs :: "string \<rightharpoonup> nat list"
  unique_params_maps :: "string \<rightharpoonup> nat list list"
  number_of_params :: "string \<rightharpoonup> nat"

text \<open>
  An instance: the attributes of the implementing class (\<open>attrs\<close>, of any type), the
  cache attributes of \<^verbatim>\<open>EditableModule\<close>, and what \<^verbatim>\<open>traceback.print_exc\<close> has written.
\<close>

record 'u module =
  attrs :: 'u
  cache :: "cache_attrs option"
  printed :: "error list"

text \<open>
  A Python call either returns or raises, and in both cases leaves a state behind. The
  abstract methods \<^verbatim>\<open>getparams\<close> and \<^verbatim>\<open>setparams\<close> are code of the implementing class:
  they are parameters of the model, acting on these attributes.
\<close>

type_synonym ('a, 's) call = "'s \<Rightarrow> (error + 'a) \<times> 's"

definition run_user :: "('a, 'u) call \<Rightarrow> ('a, 'u module) call" where
  "run_user f s = (case f (attrs s) of (r, u') \<Rightarrow> (r, s\<lparr>attrs := u'\<rparr>))"

definition empty_cache :: cache_attrs where
  "empty_cache = \<lparr>unique_params_idxs = Map.empty, unique_params_maps = Map.empty,
                   number_of_params = Map.empty\<rparr>"

text \<open>\<^verbatim>\<open>ids.index(id_param)\<close>: the first position, or \<^verbatim>\<open>ValueError\<close> (here \<open>None\<close>).\<close>

fun index_of :: "'a list \<Rightarrow> 'a \<Rightarrow> nat option" where
  "index_of [] y = None"
| "index_of (x # xs) y =
     (if x = y then Some 0
      else (case index_of xs y of None \<Rightarrow> None | Some j \<Rightarrow> Some (Suc j)))"

text \<open>
  The loop of lines 66--83 over \<^verbatim>\<open>range(len(allparams))\<close>: the parameters still to be
  read, the index \<open>i\<close> of the first of them, and the three lists built so far.
\<close>

fun unique_loop ::
  "addr list \<Rightarrow> nat \<Rightarrow> addr list \<times> nat list \<times> nat list list
    \<Rightarrow> addr list \<times> nat list \<times> nat list list" where
  "unique_loop [] i acc = acc"
| "unique_loop (param # rest) i (ids, idxs, idx_map) =
     (case index_of ids param of
        Some jfound \<Rightarrow>
          unique_loop rest (Suc i) (ids, idxs, idx_map[jfound := idx_map ! jfound @ [i]])
      | None \<Rightarrow>
          unique_loop rest (Suc i) (ids @ [param], idxs @ [i], idx_map @ [[i]]))"

definition get_unique_params_idxs ::
  "(string \<Rightarrow> (addr list, 'u) call) \<Rightarrow> string \<Rightarrow> addr list option
    \<Rightarrow> (nat list, 'u module) call" where
  "get_unique_params_idxs getparams methodname allparams s0 =
     (let s = (case cache s0 of None \<Rightarrow> s0\<lparr>cache := Some empty_cache\<rparr> | Some c \<Rightarrow> s0) in
      case (case cache s of None \<Rightarrow> None | Some c \<Rightarrow> unique_params_idxs c methodname) of
        Some idxs \<Rightarrow> (Inr idxs, s)
      | None \<Rightarrow>
          (case (case allparams of
                   None \<Rightarrow> run_user (getparams methodname) s
                 | Some ps \<Rightarrow> (Inr ps, s)) of
             (Inl e, s1) \<Rightarrow> (Inl e, s1)
           | (Inr ps, s1) \<Rightarrow>
               (case unique_loop ps 0 ([], [], []) of
                  (ids, idxs, idx_map) \<Rightarrow>
                    (case cache s1 of
                       None \<Rightarrow> (Inl AttributeError, s1)
                     | Some c \<Rightarrow>
                         (Inr idxs,
                          s1\<lparr>cache := Some (c\<lparr>number_of_params :=
                                                  (number_of_params c)(methodname \<mapsto> length ps),
                                                unique_params_idxs :=
                                                  (unique_params_idxs c)(methodname \<mapsto> idxs),
                                                unique_params_maps :=
                                                  (unique_params_maps c)(methodname \<mapsto> idx_map)\<rparr>)\<rparr>)))))"

text \<open>\<^verbatim>\<open>[allparams[i] for i in idxs]\<close>, with the \<^verbatim>\<open>IndexError\<close> of a position out of range.\<close>

fun select_idxs :: "'a list \<Rightarrow> nat list \<Rightarrow> error + 'a list" where
  "select_idxs xs [] = Inr []"
| "select_idxs xs (i # is) =
     (if i < length xs
      then (case select_idxs xs is of Inl e \<Rightarrow> Inl e | Inr ys \<Rightarrow> Inr (xs ! i # ys))
      else Inl IndexError)"

definition getuniqueparams ::
  "(string \<Rightarrow> (addr list, 'u) call) \<Rightarrow> string \<Rightarrow> (addr list, 'u module) call" where
  "getuniqueparams getparams methodname s =
     (case run_user (getparams methodname) s of
        (Inl e, s1) \<Rightarrow> (Inl e, s1)
      | (Inr allparams, s1) \<Rightarrow>
          (case get_unique_params_idxs getparams methodname (Some allparams) s1 of
             (Inl e, s2) \<Rightarrow> (Inl e, s2)
           | (Inr idxs, s2) \<Rightarrow>
               (case select_idxs allparams idxs of
                  Inl e \<Rightarrow> (Inl e, s2)
                | Inr ps \<Rightarrow> (Inr ps, s2))))"

text \<open>The inner loop of \<^verbatim>\<open>setuniqueparams\<close>: \<^verbatim>\<open>for i in jmap: allparams[i] = p\<close>.\<close>

fun assign_group :: "nat list \<Rightarrow> addr \<Rightarrow> addr list \<Rightarrow> error + addr list" where
  "assign_group [] p allparams = Inr allparams"
| "assign_group (i # jmap) p allparams =
     (if i < length allparams then assign_group jmap p (allparams[i := p])
      else Inl IndexError)"

text \<open>
  The outer loop, \<^verbatim>\<open>for j in range(len(uniqueparams))\<close>: the unique parameters still to
  be placed and the index \<open>j\<close> of the first of them.
\<close>

fun assign_groups :: "nat list list \<Rightarrow> addr list \<Rightarrow> nat \<Rightarrow> addr list \<Rightarrow> error + addr list" where
  "assign_groups maps [] j allparams = Inr allparams"
| "assign_groups maps (p # rest) j allparams =
     (if j < length maps
      then (case assign_group (maps ! j) p allparams of
              Inl e \<Rightarrow> Inl e
            | Inr allparams' \<Rightarrow> assign_groups maps rest (Suc j) allparams')
      else Inl IndexError)"

definition setuniqueparams ::
  "(string \<Rightarrow> addr list \<Rightarrow> (int, 'u) call) \<Rightarrow> string \<Rightarrow> addr list \<Rightarrow> (int, 'u module) call" where
  "setuniqueparams setparams methodname uniqueparams s =
     (case cache s of
        None \<Rightarrow> (Inl AttributeError, s)
      | Some c \<Rightarrow>
          (case number_of_params c methodname of
             None \<Rightarrow> (Inl KeyError, s)
           | Some nparams \<Rightarrow>
               (case unique_params_maps c methodname of
                  None \<Rightarrow> (Inl KeyError, s)
                | Some maps \<Rightarrow>
                    (case assign_groups maps uniqueparams 0 (replicate nparams py_None) of
                       Inl e \<Rightarrow> (Inl e, s)
                     | Inr allparams \<Rightarrow> run_user (setparams methodname allparams) s))))"

section \<open>The scoped substitution\<close>

text \<open>
  \<^verbatim>\<open>useparams\<close> is a generator under \<^verbatim>\<open>contextlib.contextmanager\<close>, used as
  \<^verbatim>\<open>with obj.useparams(name, *params): body\<close>. The generator's clauses:
  \<^verbatim>\<open>except Exception\<close> catches instances of \<^verbatim>\<open>Exception\<close> and prints the traceback;
  \<^verbatim>\<open>finally\<close> calls \<^verbatim>\<open>setuniqueparams\<close> with the snapshot.
\<close>

definition print_exc :: "error \<Rightarrow> 'u module \<Rightarrow> 'u module" where
  "print_exc e s = s\<lparr>printed := printed s @ [e]\<rparr>"

text \<open>
  What leaves the \<^verbatim>\<open>try\<close> statement when an exception \<open>e\<close> reaches it and the snapshot is
  bound: a caught exception is printed and gone, another one is raised again after the
  \<^verbatim>\<open>finally\<close> clause, and an exception of the \<^verbatim>\<open>finally\<close> clause replaces both.
\<close>

definition useparams_raised ::
  "(string \<Rightarrow> addr list \<Rightarrow> (int, 'u) call) \<Rightarrow> string \<Rightarrow> addr list \<Rightarrow> error
    \<Rightarrow> (unit, 'u module) call" where
  "useparams_raised setparams methodname orig_params e s =
     (if is_Exception e
      then (case setuniqueparams setparams methodname orig_params (print_exc e s) of
              (Inl e', s') \<Rightarrow> (Inl e', s')
            | (Inr n, s') \<Rightarrow> (Inr (), s'))
      else (case setuniqueparams setparams methodname orig_params s of
              (Inl e', s') \<Rightarrow> (Inl e', s')
            | (Inr n, s') \<Rightarrow> (Inl e, s')))"

text \<open>
  \<^verbatim>\<open>__enter__\<close> runs the generator to its \<^verbatim>\<open>yield\<close>; a
  generator that ends before it (the exception of \<^verbatim>\<open>setuniqueparams\<close> was caught) makes
  \<^verbatim>\<open>contextmanager\<close> raise \<^verbatim>\<open>RuntimeError\<close>, and when \<^verbatim>\<open>getuniqueparams\<close> raised, the
  \<^verbatim>\<open>finally\<close> clause reads the unbound \<^verbatim>\<open>_orig_params_\<close>. \<^verbatim>\<open>__exit__\<close> resumes the
  generator, throwing the body's exception into it at the \<^verbatim>\<open>yield\<close>; a generator that
  then ends normally suppresses the exception for the \<^verbatim>\<open>with\<close> statement.
\<close>

definition useparams_enter ::
  "(string \<Rightarrow> (addr list, 'u) call) \<Rightarrow> (string \<Rightarrow> addr list \<Rightarrow> (int, 'u) call) \<Rightarrow> string
    \<Rightarrow> addr list \<Rightarrow> (addr list, 'u module) call" where
  "useparams_enter getparams setparams methodname params s =
     (case getuniqueparams getparams methodname s of
        (Inl e, s1) \<Rightarrow>
          (Inl UnboundLocalError, if is_Exception e then print_exc e s1 else s1)
      | (Inr orig_params, s1) \<Rightarrow>
          (case setuniqueparams setparams methodname params s1 of
             (Inl e, s2) \<Rightarrow>
               (case useparams_raised setparams methodname orig_params e s2 of
                  (Inl e', s3) \<Rightarrow> (Inl e', s3)
                | (Inr u, s3) \<Rightarrow> (Inl RuntimeError, s3))
           | (Inr n, s2) \<Rightarrow> (Inr orig_params, s2)))"

definition useparams_exit ::
  "(string \<Rightarrow> addr list \<Rightarrow> (int, 'u) call) \<Rightarrow> string \<Rightarrow> addr list \<Rightarrow> error + unit
    \<Rightarrow> (unit, 'u module) call" where
  "useparams_exit setparams methodname orig_params outcome s =
     (case outcome of
        Inl e \<Rightarrow> useparams_raised setparams methodname orig_params e s
      | Inr u \<Rightarrow>
          (case setuniqueparams setparams methodname orig_params s of
             (Inl e', s') \<Rightarrow> (Inl e', s')
           | (Inr n, s') \<Rightarrow> (Inr (), s')))"

text \<open>The statement \<^verbatim>\<open>with obj.useparams(methodname, *params): body\<close>.\<close>

definition with_useparams ::
  "(string \<Rightarrow> (addr list, 'u) call) \<Rightarrow> (string \<Rightarrow> addr list \<Rightarrow> (int, 'u) call) \<Rightarrow> string
    \<Rightarrow> addr list \<Rightarrow> (unit, 'u module) call \<Rightarrow> (unit, 'u module) call" where
  "with_useparams getparams setparams methodname params body s =
     (case useparams_enter getparams setparams methodname params s of
        (Inl e, s1) \<Rightarrow> (Inl e, s1)
      | (Inr orig_params, s1) \<Rightarrow>
          (case body s1 of (outcome, s2) \<Rightarrow>
             useparams_exit setparams methodname orig_params outcome s2))"

section \<open>Reading the cache\<close>

text \<open>An operation name is fresh when \<^verbatim>\<open>methodname in self._unique_params_idxs\<close> is false.\<close>

definition fresh_for :: "string \<Rightarrow> 'u module \<Rightarrow> bool" where
  "fresh_for name s = (case cache s of None \<Rightarrow> True | Some c \<Rightarrow> unique_params_idxs c name = None)"

text \<open>The three entries held for an operation name, each absent or present.\<close>

definition cached ::
  "'u module \<Rightarrow> string \<Rightarrow> nat list option \<times> nat list list option \<times> nat option" where
  "cached s name =
     (case cache s of
        None \<Rightarrow> (None, None, None)
      | Some c \<Rightarrow> (unique_params_idxs c name, unique_params_maps c name, number_of_params c name))"

definition cache_or_empty :: "'u module \<Rightarrow> cache_attrs" where
  "cache_or_empty s = (case cache s of None \<Rightarrow> empty_cache | Some c \<Rightarrow> c)"

text \<open>Lines 85--87: the three assignments that end the first call.\<close>

definition store_unique :: "string \<Rightarrow> addr list \<Rightarrow> cache_attrs \<Rightarrow> cache_attrs" where
  "store_unique name ps c =
     (case unique_loop ps 0 ([], [], []) of
        (ids, idxs, idx_map) \<Rightarrow>
          c\<lparr>number_of_params := (number_of_params c)(name \<mapsto> length ps),
            unique_params_idxs := (unique_params_idxs c)(name \<mapsto> idxs),
            unique_params_maps := (unique_params_maps c)(name \<mapsto> idx_map)\<rparr>)"

text \<open>
  What holds of the three lists when the loop has read the prefix \<open>pre\<close> of the parameter
  list: one entry per different identity, in order of first appearance; group \<open>j\<close> holds
  exactly the positions of identity \<open>ids ! j\<close>, and \<open>idxs ! j\<close> is one of them.
\<close>

definition unique_inv :: "addr list \<Rightarrow> addr list \<times> nat list \<times> nat list list \<Rightarrow> bool" where
  "unique_inv pre acc =
     (case acc of (ids, idxs, idx_map) \<Rightarrow>
        length idxs = length ids \<and> length idx_map = length ids \<and> distinct ids
      \<and> set ids = set pre
      \<and> (\<forall>j<length ids. set (idx_map ! j) = {i. i < length pre \<and> pre ! i = ids ! j})
      \<and> (\<forall>j<length ids. idxs ! j < length pre \<and> pre ! (idxs ! j) = ids ! j))"

text \<open>
  A candidate list has the aliasing of the full list \<open>pat\<close> when it is as long and holds one
  tensor wherever \<open>pat\<close> holds one tensor. These are the only lists \<^verbatim>\<open>setuniqueparams\<close>
  can pass on: it writes one value to all positions of a group.
\<close>

definition same_aliasing :: "addr list \<Rightarrow> addr list \<Rightarrow> bool" where
  "same_aliasing pat ps =
     (length ps = length pat
      \<and> (\<forall>i<length pat. \<forall>j<length pat. pat ! i = pat ! j \<longrightarrow> ps ! i = ps ! j))"

text \<open>
  The contract of the two abstract methods for one operation (spec 4.3), as far as the
  substitution needs it: \<^verbatim>\<open>setparams\<close> accepts every such list in every state of the
  object, and \<^verbatim>\<open>getparams\<close> then returns that list, position by position, and changes
  nothing.
\<close>

definition params_contract ::
  "(string \<Rightarrow> (addr list, 'u) call) \<Rightarrow> (string \<Rightarrow> addr list \<Rightarrow> (int, 'u) call) \<Rightarrow> string
    \<Rightarrow> addr list \<Rightarrow> bool" where
  "params_contract getparams setparams name pat =
     (\<forall>u ps. same_aliasing pat ps \<longrightarrow>
        (\<exists>n u'. setparams name ps u = (Inr n, u') \<and> getparams name u' = (Inr ps, u')))"

text \<open>The cache entries the first call computes from the full list \<open>ps\<close>.\<close>

definition cached_for ::
  "addr list \<Rightarrow> nat list option \<times> nat list list option \<times> nat option" where
  "cached_for ps =
     (case unique_loop ps 0 ([], [], []) of
        (ids, idxs, idx_map) \<Rightarrow> (Some idxs, Some idx_map, Some (length ps)))"

text \<open>
  The body of a \<^verbatim>\<open>with\<close> statement is code of the caller; it may change the object and
  raise. It keeps the cache when it leaves the entries of the operation as they were.
\<close>

definition keeps_cached :: "(unit, 'u module) call \<Rightarrow> string \<Rightarrow> bool" where
  "keeps_cached body name = (\<forall>s r s'. body s = (r, s') \<longrightarrow> cached s' name = cached s name)"

text \<open>
  An implementing class for the concrete instances: three attributes \<open>a\<close>, \<open>b\<close>, \<open>c\<close>,
  \<^verbatim>\<open>getparams\<close> returning \<^verbatim>\<open>[self.a, self.b, self.a, self.c]\<close> and \<^verbatim>\<open>setparams\<close> doing
  \<^verbatim>\<open>self.a, self.b, self.a, self.c = params[:4]\<close> and returning 4. The body of the
  example overwrites the three attributes and then returns or raises.
\<close>

definition example_getparams :: "string \<Rightarrow> (addr list, addr \<times> addr \<times> addr) call" where
  "example_getparams name u = (case u of (a, b, c) \<Rightarrow> (Inr [a, b, a, c], u))"

definition example_setparams :: "string \<Rightarrow> addr list \<Rightarrow> (int, addr \<times> addr \<times> addr) call" where
  "example_setparams name ps u =
     (case ps of
        p0 # p1 # p2 # p3 # rest \<Rightarrow> (Inr 4, (p2, p1, p3))
      | _ \<Rightarrow> (Inl ValueError, u))"

definition example_module :: "(addr \<times> addr \<times> addr) module" where
  "example_module = \<lparr>attrs = (1, 2, 3), cache = None, printed = []\<rparr>"

definition example_body ::
  "error + unit \<Rightarrow> (unit, (addr \<times> addr \<times> addr) module) call" where
  "example_body outcome s = (outcome, s\<lparr>attrs := (7, 8, 9)\<rparr>)"

section \<open>The object graph\<close>

text \<open>
  The traversal functions walk arbitrary Python objects by reflection. The model has the
  kinds of object the traversal and its actions tell apart: a \<^verbatim>\<open>torch.Tensor\<close> (it has a
  \<^verbatim>\<open>dtype\<close>, a \<^verbatim>\<open>__dict__\<close> and \<^verbatim>\<open>__iter__\<close>), an instance of a class (it has a
  \<^verbatim>\<open>__dict__\<close>), a list and a tuple (they have \<^verbatim>\<open>__iter__\<close> and no \<^verbatim>\<open>__dict__\<close>; a list
  accepts \<^verbatim>\<open>obj[i] = v\<close>, a tuple raises \<^verbatim>\<open>TypeError\<close> on it), and an atom such as a number
  or \<^verbatim>\<open>None\<close> (neither). Other iterables (sets, dictionaries, strings, generators) are
  not in the model. A \<^verbatim>\<open>__dict__\<close> is an association list in insertion order; every slot holds
  the address of its value, and the store maps an address to the object there.
\<close>

datatype dtype = Float16 | Float32 | Float64 | BFloat16 | Int32 | Int64 | Bool | Complex64

text \<open>\<^verbatim>\<open>torch.float\<close> is \<^verbatim>\<open>torch.float32\<close>.\<close>

definition torch_float_type :: "dtype list" where
  "torch_float_type = [Float32, Float32, Float64, Float16]"

datatype pyobj =
    Tensor dtype "(string \<times> addr) list"
  | Instance "(string \<times> addr) list"
  | PyList "addr list"
  | PyTuple "addr list"
  | Atom

datatype key = Attr string | Idx nat

type_synonym store = "addr \<Rightarrow> pyobj"

fun has_dict :: "pyobj \<Rightarrow> bool" where
  "has_dict (Tensor d a) = True"
| "has_dict (Instance a) = True"
| "has_dict (PyList xs) = False"
| "has_dict (PyTuple xs) = False"
| "has_dict Atom = False"

fun has_iter :: "pyobj \<Rightarrow> bool" where
  "has_iter (Tensor d a) = True"
| "has_iter (Instance a) = False"
| "has_iter (PyList xs) = True"
| "has_iter (PyTuple xs) = True"
| "has_iter Atom = False"

text \<open>
  The keys of \<^verbatim>\<open>obj.__dict__.items()\<close>, or of \<^verbatim>\<open>enumerate(obj)\<close> for an object without
  \<^verbatim>\<open>__dict__\<close>; \<open>None\<close> for an object with neither (line 298 raises).
\<close>

fun obj_keys :: "pyobj \<Rightarrow> key list option" where
  "obj_keys (Tensor d a) = Some (map (\<lambda>kv. Attr (fst kv)) a)"
| "obj_keys (Instance a) = Some (map (\<lambda>kv. Attr (fst kv)) a)"
| "obj_keys (PyList xs) = Some (map Idx [0..<length xs])"
| "obj_keys (PyTuple xs) = Some (map Idx [0..<length xs])"
| "obj_keys Atom = None"

text \<open>The value a slot holds now: both generators read the container as they go.\<close>

fun get_item :: "pyobj \<Rightarrow> key \<Rightarrow> addr option" where
  "get_item (Tensor d a) (Attr k) = map_of a k"
| "get_item (Instance a) (Attr k) = map_of a k"
| "get_item (PyList xs) (Idx i) = (if i < length xs then Some (xs ! i) else None)"
| "get_item (PyTuple xs) (Idx i) = (if i < length xs then Some (xs ! i) else None)"
| "get_item _ _ = None"

text \<open>\<^verbatim>\<open>d[k] = v\<close> on a dictionary: an existing key keeps its place, a new one comes last.\<close>

fun dict_set :: "string \<Rightarrow> addr \<Rightarrow> (string \<times> addr) list \<Rightarrow> (string \<times> addr) list" where
  "dict_set k v [] = [(k, v)]"
| "dict_set k v (p # ps) = (if fst p = k then (k, v) # ps else p # dict_set k v ps)"

text \<open>
  \<^verbatim>\<open>objdict[key] = v\<close>, where \<^verbatim>\<open>objdict\<close> is \<^verbatim>\<open>obj.__dict__\<close> or the iterable \<^verbatim>\<open>obj\<close> itself:
  a tuple does not support item assignment.
\<close>

fun set_item :: "pyobj \<Rightarrow> key \<Rightarrow> addr \<Rightarrow> error + pyobj" where
  "set_item (Tensor d a) (Attr k) v = Inr (Tensor d (dict_set k v a))"
| "set_item (Instance a) (Attr k) v = Inr (Instance (dict_set k v a))"
| "set_item (PyList xs) (Idx i) v = (if i < length xs then Inr (PyList (xs[i := v])) else Inl IndexError)"
| "set_item (PyTuple xs) k v = Inl TypeError"
| "set_item _ _ v = Inl TypeError"

text \<open>The decimal digits of an index, for \<^verbatim>\<open>"{prefix}[{key}]".format(...)\<close>.\<close>

definition digit_char :: "nat \<Rightarrow> char" where
  "digit_char n = ''0123456789'' ! n"

function str_nat :: "nat \<Rightarrow> string" where
  "str_nat n = (if n < 10 then [digit_char n] else str_nat (n div 10) @ [digit_char (n mod 10)])"
  by pat_completeness auto
termination
  by (relation "measure (\<lambda>n. n)") auto

declare str_nat.simps [simp del]

text \<open>\<^verbatim>\<open>name_format\<close>, fixed by the kind of the traversed object (lines 291 and 295).\<close>

datatype name_format = Dotted | Bracketed

fun format_name :: "name_format \<Rightarrow> string \<Rightarrow> key \<Rightarrow> string" where
  "format_name Dotted prefix (Attr k) = prefix @ ''.'' @ k"
| "format_name Dotted prefix (Idx i) = prefix @ ''.'' @ str_nat i"
| "format_name Bracketed prefix (Attr k) = prefix @ ''['' @ k @ '']''"
| "format_name Bracketed prefix (Idx i) = prefix @ ''['' @ str_nat i @ '']''"

section \<open>The traversal\<close>

text \<open>
  \<^verbatim>\<open>action(elmt, name, objdict, key)\<close> is a closure: it changes what it captured (\<open>'a\<close>)
  and the store. \<^verbatim>\<open>objdict\<close> is given by the address of the object that owns it.
\<close>

type_synonym 'a action = "addr \<Rightarrow> string \<Rightarrow> addr \<Rightarrow> key \<Rightarrow> 'a \<times> store \<Rightarrow> error + 'a \<times> store"

text \<open>
  \<^verbatim>\<open>_traverse_obj(obj, prefix, action, crit, max_depth=20, exception_ids=None)\<close>. The
  parameter \<^verbatim>\<open>crit\<close> has no default: a call that does not pass it raises \<^verbatim>\<open>TypeError\<close>
  before the body runs, which is \<open>crit = None\<close> here. The recursive call of line 311
  passes \<^verbatim>\<open>elmt\<close>, \<^verbatim>\<open>action\<close>, \<^verbatim>\<open>prefix\<close>, \<^verbatim>\<open>max_depth\<close> and \<^verbatim>\<open>exception_ids\<close>, and no \<^verbatim>\<open>crit\<close>.
  \<open>traverse_items\<close> is the \<^verbatim>\<open>for\<close> loop of lines 300--313 over the keys still to come;
  the list \<^verbatim>\<open>exception_ids\<close> is shared with the recursive calls, so it is returned.
  A key that the container no longer has stops the loop with \<^verbatim>\<open>RuntimeError\<close>, as a
  dictionary that changed size during iteration does.
\<close>

function traverse_obj ::
  "addr \<Rightarrow> string \<Rightarrow> 'a action \<Rightarrow> (pyobj \<Rightarrow> bool) option \<Rightarrow> int \<Rightarrow> addr list option
    \<Rightarrow> 'a \<times> store \<Rightarrow> error + addr list \<times> 'a \<times> store"
and traverse_items ::
  "addr \<Rightarrow> key list \<Rightarrow> name_format \<Rightarrow> string \<Rightarrow> 'a action \<Rightarrow> (pyobj \<Rightarrow> bool) \<Rightarrow> int
    \<Rightarrow> addr list \<times> 'a \<times> store \<Rightarrow> error + addr list \<times> 'a \<times> store" where
  "traverse_obj obj prefix action crit max_depth exception_ids (acc, h) =
     (case crit of
        None \<Rightarrow> Inl TypeError
      | Some c \<Rightarrow>
          (case obj_keys (h obj) of
             None \<Rightarrow> Inl RuntimeError
           | Some ks \<Rightarrow>
               traverse_items obj ks (if has_dict (h obj) then Dotted else Bracketed) prefix
                 action c max_depth
                 (case exception_ids of None \<Rightarrow> [] | Some ids \<Rightarrow> ids, acc, h)))"
| "traverse_items obj [] fmt prefix action c max_depth st = Inr st"
| "traverse_items obj (k # ks) fmt prefix action c max_depth (ids, acc, h) =
     (case get_item (h obj) k of
        None \<Rightarrow> Inl RuntimeError
      | Some elmt \<Rightarrow>
          if elmt \<in> set ids then traverse_items obj ks fmt prefix action c max_depth (ids, acc, h)
          else if c (h elmt) then
            (case action elmt (format_name fmt prefix k) obj k (acc, h) of
               Inl e \<Rightarrow> Inl e
             | Inr (acc', h') \<Rightarrow>
                 traverse_items obj ks fmt prefix action c max_depth (ids @ [elmt], acc', h'))
          else if has_dict (h elmt) \<or> has_iter (h elmt) then
            (if max_depth > 0 then
               (case traverse_obj elmt (format_name fmt prefix k) action None (max_depth - 1)
                       (Some (ids @ [elmt])) (acc, h) of
                  Inl e \<Rightarrow> Inl e
                | Inr st' \<Rightarrow> traverse_items obj ks fmt prefix action c max_depth st')
             else Inl RecursionError)
          else traverse_items obj ks fmt prefix action c max_depth (ids @ [elmt], acc, h))"
  by pat_completeness auto
termination
  by (relation "measures
        [\<lambda>x. case x of Inl (obj, prefix, action, crit, max_depth, rest) \<Rightarrow> nat max_depth
                      | Inr (obj, ks, fmt, prefix, action, c, max_depth, rest) \<Rightarrow> nat max_depth,
         \<lambda>x. case x of Inl a \<Rightarrow> 1 | Inr b \<Rightarrow> 0,
         \<lambda>x. case x of Inl a \<Rightarrow> 0 | Inr (obj, ks, rest) \<Rightarrow> length ks]")
     auto

text \<open>The criterion of \<^verbatim>\<open>_get_tensors\<close> and \<^verbatim>\<open>_set_tensors\<close>: a tensor of a float dtype.\<close>

fun is_float_tensor :: "pyobj \<Rightarrow> bool" where
  "is_float_tensor (Tensor d a) = (d \<in> set torch_float_type)"
| "is_float_tensor _ = False"

text \<open>The action of \<^verbatim>\<open>_get_tensors\<close> appends to \<^verbatim>\<open>res\<close> and \<^verbatim>\<open>names\<close>.\<close>

definition get_action :: "(addr list \<times> string list) action" where
  "get_action elmt name objdict k st =
     (case st of ((res, names), h) \<Rightarrow> Inr ((res @ [elmt], names @ [name]), h))"

definition get_tensors :: "store \<Rightarrow> addr \<Rightarrow> string \<Rightarrow> int \<Rightarrow> error + addr list \<times> string list" where
  "get_tensors h obj prefix max_depth =
     (case traverse_obj obj prefix get_action (Some is_float_tensor) max_depth None (([], []), h) of
        Inl e \<Rightarrow> Inl e
      | Inr (ids, (res, names), h') \<Rightarrow> Inr (res, names))"

text \<open>
  The action of \<^verbatim>\<open>_set_tensors\<close>: \<^verbatim>\<open>objdict[key] = all_params.pop(0)\<close>. The list is the
  caller's and is consumed; the model returns what is left of it with the store.
\<close>

definition set_action :: "(addr list) action" where
  "set_action elmt name objdict k st =
     (case st of (all_params, h) \<Rightarrow>
        (case all_params of
           [] \<Rightarrow> Inl IndexError
         | p # rest \<Rightarrow>
             (case set_item (h objdict) k p of
                Inl e \<Rightarrow> Inl e
              | Inr obj' \<Rightarrow> Inr (rest, h(objdict := obj')))))"

definition set_tensors :: "store \<Rightarrow> addr \<Rightarrow> addr list \<Rightarrow> int \<Rightarrow> error + addr list \<times> store" where
  "set_tensors h obj all_params max_depth =
     (case traverse_obj obj ''self'' set_action (Some is_float_tensor) max_depth None (all_params, h) of
        Inl e \<Rightarrow> Inl e
      | Inr (ids, rest, h') \<Rightarrow> Inr (rest, h'))"

section \<open>Notions used to state the properties of the traversal\<close>

text \<open>A store given by the objects at finitely many addresses; atoms everywhere else.\<close>

definition store_of :: "(addr \<times> pyobj) list \<Rightarrow> store" where
  "store_of l a = (case map_of l a of None \<Rightarrow> Atom | Some ob \<Rightarrow> ob)"

text \<open>The values in the slots of an object, in the order of its keys.\<close>

fun slot_values :: "pyobj \<Rightarrow> addr list" where
  "slot_values (Tensor d a) = map snd a"
| "slot_values (Instance a) = map snd a"
| "slot_values (PyList xs) = xs"
| "slot_values (PyTuple xs) = xs"
| "slot_values Atom = []"

text \<open>The keys of a Python dictionary are pairwise different.\<close>

fun distinct_keys :: "pyobj \<Rightarrow> bool" where
  "distinct_keys (Tensor d a) = distinct (map fst a)"
| "distinct_keys (Instance a) = distinct (map fst a)"
| "distinct_keys (PyList xs) = True"
| "distinct_keys (PyTuple xs) = True"
| "distinct_keys Atom = True"

text \<open>
  The objects whose slots accept \<^verbatim>\<open>objdict[key] = v\<close>: those that hold their slots in an
  attribute dictionary, and lists.
\<close>

fun item_assignable :: "pyobj \<Rightarrow> bool" where
  "item_assignable (Tensor d a) = True"
| "item_assignable (Instance a) = True"
| "item_assignable (PyList xs) = True"
| "item_assignable (PyTuple xs) = False"
| "item_assignable Atom = False"

text \<open>
  What the slots hold after \<^verbatim>\<open>_set_tensors\<close> when every slot that satisfies \<open>P\<close> is
  visited: these take the supplied values in order, the others keep theirs.
\<close>

fun fill :: "(addr \<Rightarrow> bool) \<Rightarrow> addr list \<Rightarrow> addr list \<Rightarrow> addr list" where
  "fill P [] new = []"
| "fill P (e # es) new =
     (if P e then (case new of [] \<Rightarrow> e # fill P es [] | n # ns \<Rightarrow> n # fill P es ns)
      else e # fill P es new)"

text \<open>The keys of the slots that satisfy \<open>P\<close>.\<close>

fun matched_keys :: "(addr \<Rightarrow> bool) \<Rightarrow> key list \<Rightarrow> addr list \<Rightarrow> key list" where
  "matched_keys P (k # ks) (e # es) =
     (if P e then k # matched_keys P ks es else matched_keys P ks es)"
| "matched_keys P _ _ = []"

section \<open>Concrete object graphs\<close>

text \<open>
  An object with two float tensors in its attributes \<open>a\<close> and \<open>b\<close>; two more float tensors
  live at 3 and 4.
\<close>

definition flat_store :: store where
  "flat_store = store_of [(10, Instance [(''a'', 1), (''b'', 2)]), (1, Tensor Float32 []),
                          (2, Tensor Float64 []), (3, Tensor Float32 []), (4, Tensor Float16 [])]"

text \<open>An object whose attributes \<open>a\<close> and \<open>b\<close> hold the same tensor.\<close>

definition alias_store :: store where
  "alias_store = store_of [(10, Instance [(''a'', 1), (''b'', 1)]), (1, Tensor Float32 []),
                           (3, Tensor Float32 [])]"

text \<open>
  Object 10 refers to object 11 and object 11 back to object 10; 10 holds the tensors 1
  and 2, and 11 holds the tensor 3.
\<close>

definition cyclic_store :: store where
  "cyclic_store = store_of [(10, Instance [(''t0'', 1), (''b'', 11), (''t1'', 2)]),
                            (11, Instance [(''a'', 10), (''t2'', 3)]),
                            (1, Tensor Float32 []), (2, Tensor Float32 []), (3, Tensor Float32 [])]"

text \<open>A tuple of two float tensors; two more float tensors live at 3 and 4.\<close>

definition tuple_store :: store where
  "tuple_store = store_of [(10, PyTuple [1, 2]), (1, Tensor Float32 []), (2, Tensor Float64 []),
                           (3, Tensor Float32 []), (4, Tensor Float16 [])]"

text \<open>An object holding a list that holds an empty list: two levels below the root.\<close>

definition deep_store :: store where
  "deep_store = store_of [(10, Instance [(''x'', 11)]), (11, PyList [12]), (12, PyList [])]"

text \<open>An object holding a list whose two slots hold the same tensor.\<close>

definition nested_alias_store :: store where
  "nested_alias_store = store_of [(10, Instance [(''x'', 11)]), (11, PyList [1, 1]),
                                  (1, Tensor Float32 []), (3, Tensor Float32 [])]"

text \<open>An object holding a number in \<open>n\<close> and a float tensor in \<open>w\<close>.\<close>

definition atom_store :: store where
  "atom_store = store_of [(10, Instance [(''n'', 5), (''w'', 1)]), (5, Atom), (1, Tensor Float32 [])]"


section \<open>The gradient-probing check of the verifier\<close>

text \<open>
  A heap is a store with the next free address: \<^verbatim>\<open>tensor.clone()\<close> makes a new object.
  The clone has the dtype of its source and an empty \<^verbatim>\<open>__dict__\<close>.
\<close>

type_synonym heap = "store \<times> addr"

fun clone_all :: "heap \<Rightarrow> addr list \<Rightarrow> error + addr list \<times> heap" where
  "clone_all hn [] = Inr ([], hn)"
| "clone_all (h, n) (t # ts) =
     (case h t of
        Tensor d a \<Rightarrow>
          (case clone_all (h(n := Tensor d []), Suc n) ts of
             Inl e \<Rightarrow> Inl e
           | Inr (cs, hn') \<Rightarrow> Inr (n # cs, hn'))
      | _ \<Rightarrow> Inl AttributeError)"

text \<open>
  Lines 240--246: \<^verbatim>\<open>for i, grad in enumerate(grad_tensors)\<close> keeps the name and the original
  tensor at every position whose gradient is not \<^verbatim>\<open>None\<close>. A gradient is given by whether
  it is present.
\<close>

fun operating_loop ::
  "bool list \<Rightarrow> nat \<Rightarrow> string list \<Rightarrow> addr list \<Rightarrow> string list \<times> addr list
    \<Rightarrow> error + string list \<times> addr list" where
  "operating_loop [] i all_names all_tensors acc = Inr acc"
| "operating_loop (grad # grads) i all_names all_tensors (names, params) =
     (if \<not> grad then operating_loop grads (Suc i) all_names all_tensors (names, params)
      else if i < length all_names \<and> i < length all_tensors
      then operating_loop grads (Suc i) all_names all_tensors
             (names @ [all_names ! i], params @ [all_tensors ! i])
      else Inl IndexError)"

text \<open>
  \<^verbatim>\<open>__list_operating_params\<close>. Running the method and \<^verbatim>\<open>torch.autograd.grad\<close> on the
  clones is the differentiation primitive, outside the module: it is the parameter
  \<open>probe\<close>, which sees the heap with the clones installed and returns, for every clone,
  whether it received a gradient, or raises.
\<close>

definition list_operating_params ::
  "(heap \<Rightarrow> addr list \<Rightarrow> error + bool list \<times> heap) \<Rightarrow> heap \<Rightarrow> addr
    \<Rightarrow> error + string list \<times> addr list \<times> heap" where
  "list_operating_params probe hn self =
     (case get_tensors (fst hn) self ''self'' 20 of
        Inl e \<Rightarrow> Inl e
      | Inr (all_tensors, all_names) \<Rightarrow>
          (case clone_all hn all_tensors of
             Inl e \<Rightarrow> Inl e
           | Inr (copy_tensors0, (h1, n1)) \<Rightarrow>
               (case set_tensors h1 self copy_tensors0 20 of
                  Inl e \<Rightarrow> Inl e
                | Inr (rest, h2) \<Rightarrow>
                    (case probe (h2, n1) copy_tensors0 of
                       Inl e \<Rightarrow> Inl e
                     | Inr (grad_tensors, (h3, n3)) \<Rightarrow>
                         (case set_tensors h3 self all_tensors 20 of
                            Inl e \<Rightarrow> Inl e
                          | Inr (rest', h4) \<Rightarrow>
                              (case operating_loop grad_tensors 0 all_names all_tensors ([], []) of
                                 Inl e \<Rightarrow> Inl e
                               | Inr (names, params) \<Rightarrow> Inr (names, params, (h4, n3))))))))"

text \<open>\<^verbatim>\<open>_get_tensor_name\<close>: the name at the first position holding the given tensor.\<close>

fun get_tensor_name :: "addr list \<Rightarrow> string list \<Rightarrow> addr \<Rightarrow> string option" where
  "get_tensor_name (p # ps) (n # ns) param =
     (if p = param then Some n else get_tensor_name ps ns param)"
| "get_tensor_name _ _ param = None"

text \<open>Lines 177--182: the first declared parameter that is no float tensor.\<close>

fun nonfloat_loop :: "store \<Rightarrow> addr list \<Rightarrow> nat \<Rightarrow> error + unit" where
  "nonfloat_loop h [] i = Inr ()"
| "nonfloat_loop h (param # rest) i =
     (if \<not> is_float_tensor (h param) then Inl (GetSetParamsError (NonFloatParam i))
      else nonfloat_loop h rest (Suc i))"

text \<open>Lines 185--188: the names of the operating parameters that are not declared.\<close>

definition missing_names :: "string list \<Rightarrow> addr list \<Rightarrow> addr list \<Rightarrow> string list" where
  "missing_names oper_names oper_params user_params =
     map fst (filter (\<lambda>np. snd np \<notin> set user_params) (zip oper_names oper_params))"

text \<open>
  Lines 197--208: the declared parameters that are no operating parameters; one that is
  no member of the object raises at once, before the list is looked at.
\<close>

fun excess_loop ::
  "addr list \<Rightarrow> string list \<Rightarrow> addr list \<Rightarrow> addr list \<Rightarrow> nat \<Rightarrow> string list
    \<Rightarrow> error + string list" where
  "excess_loop all_params all_names oper_params [] i excess_names = Inr excess_names"
| "excess_loop all_params all_names oper_params (param # rest) i excess_names =
     (if param \<notin> set oper_params then
        (case get_tensor_name all_params all_names param of
           None \<Rightarrow> Inl (GetSetParamsError (NotMember i))
         | Some name \<Rightarrow>
             excess_loop all_params all_names oper_params rest (Suc i) (excess_names @ [name]))
      else excess_loop all_params all_names oper_params rest (Suc i) excess_names)"

text \<open>
  Lines 176--217, once the three lists are there. The result is the warnings issued
  (each the list of names it reports) and how the function ends. The text of an error
  message, for which \<^verbatim>\<open>__get_error_message_ith_params\<close> replays \<^verbatim>\<open>setparams\<close> on a prefix
  of the list, is not part of the model.
\<close>

definition check_params ::
  "store \<Rightarrow> addr list \<Rightarrow> string list \<Rightarrow> string list \<Rightarrow> addr list \<Rightarrow> addr list
    \<Rightarrow> string list list \<times> (error + unit)" where
  "check_params h all_params all_names oper_names oper_params user_params =
     (case nonfloat_loop h user_params 0 of
        Inl e \<Rightarrow> ([], Inl e)
      | Inr u \<Rightarrow>
          (let missing = missing_names oper_names oper_params user_params;
               warnings = (if length missing > 0 then [missing] else [])
           in case excess_loop all_params all_names oper_params user_params 0 [] of
                Inl e \<Rightarrow> (warnings, Inl e)
              | Inr excess_names \<Rightarrow>
                  if length excess_names > 0
                  then (warnings, Inl (GetSetParamsError (ExcessParams excess_names)))
                  else (warnings, Inr ())))"

text \<open>
  \<^verbatim>\<open>__assert_get_correct_params\<close>: \<^verbatim>\<open>getparams\<close> is the method of the implementing
  class, reading the heap.
\<close>

definition assert_get_correct_params ::
  "(heap \<Rightarrow> addr list \<Rightarrow> error + bool list \<times> heap) \<Rightarrow> (heap \<Rightarrow> error + addr list) \<Rightarrow> heap
    \<Rightarrow> addr \<Rightarrow> string list list \<times> (error + unit)" where
  "assert_get_correct_params probe getparams hn self =
     (case get_tensors (fst hn) self ''self'' 20 of
        Inl e \<Rightarrow> ([], Inl e)
      | Inr (all_params, all_names) \<Rightarrow>
          (case list_operating_params probe hn self of
             Inl e \<Rightarrow> ([], Inl e)
           | Inr (oper_names, oper_params, hn') \<Rightarrow>
               (case getparams hn' of
                  Inl e \<Rightarrow> ([], Inl e)
                | Inr user_params \<Rightarrow>
                    check_params (fst hn') all_params all_names oper_names oper_params
                      user_params)))"

text \<open>Lines 215--217: how the function ends after the loop over the declared parameters.\<close>

definition excess_verdict :: "error + string list \<Rightarrow> error + unit" where
  "excess_verdict r =
     (case r of
        Inl e \<Rightarrow> Inl e
      | Inr excess_names \<Rightarrow>
          if length excess_names > 0 then Inl (GetSetParamsError (ExcessParams excess_names))
          else Inr ())"

text \<open>
  A concrete run: an object with the float tensors \<open>w\<close>, \<open>b\<close> and \<open>c\<close>; the operation uses
  \<open>w\<close> and \<open>b\<close> (they receive a gradient, \<open>c\<close> does not), and \<^verbatim>\<open>getparams\<close> declares \<open>w\<close>
  and \<open>c\<close>.
\<close>

definition probe_store :: store where
  "probe_store = store_of [(10, Instance [(''w'', 1), (''b'', 2), (''c'', 3)]),
                           (1, Tensor Float32 []), (2, Tensor Float32 []), (3, Tensor Float32 [])]"

definition example_probe :: "heap \<Rightarrow> addr list \<Rightarrow> error + bool list \<times> heap" where
  "example_probe hn copies = Inr ([True, True, False], hn)"

definition example_declared :: "heap \<Rightarrow> error + addr list" where
  "example_declared hn = Inr [1, 3]"


section \<open>First and later calls of the unique-index computation\<close>

lemma first_call_Some:
  assumes "fresh_for name s"
  shows "get_unique_params_idxs gp name (Some ps) s =
           (Inr (fst (snd (unique_loop ps 0 ([], [], [])))),
            s\<lparr>cache := Some (store_unique name ps (cache_or_empty s))\<rparr>)"
  using assms
  by (cases "cache s"; cases "unique_loop ps 0 ([], [], [])")
     (simp_all add: get_unique_params_idxs_def empty_cache_def fresh_for_def
        cache_or_empty_def store_unique_def)

lemma first_call_None:
  assumes "fresh_for name s" and "gp name (attrs s) = (Inr ps, u)"
  shows "get_unique_params_idxs gp name None s =
           (Inr (fst (snd (unique_loop ps 0 ([], [], [])))),
            s\<lparr>attrs := u, cache := Some (store_unique name ps (cache_or_empty s))\<rparr>)"
  using assms
  by (cases "cache s"; cases "unique_loop ps 0 ([], [], [])")
     (simp_all add: get_unique_params_idxs_def empty_cache_def fresh_for_def
        cache_or_empty_def store_unique_def run_user_def)

lemma later_call:
  assumes "fst (cached s name) = Some stored"
  shows "get_unique_params_idxs gp name allparams s = (Inr stored, s)"
  using assms by (cases "cache s") (simp_all add: get_unique_params_idxs_def cached_def)

lemma cached_store_unique:
  "cached (s\<lparr>cache := Some (store_unique name ps c)\<rparr>) name =
     (case unique_loop ps 0 ([], [], []) of
        (ids, idxs, idx_map) \<Rightarrow> (Some idxs, Some idx_map, Some (length ps)))"
  by (cases "unique_loop ps 0 ([], [], [])") (simp add: cached_def store_unique_def)

lemma cached_attrs_update [simp]: "cached (s\<lparr>attrs := u\<rparr>) name = cached s name"
  by (simp add: cached_def)

lemma cached_printed_update [simp]: "cached (s\<lparr>printed := p\<rparr>) name = cached s name"
  by (simp add: cached_def)

lemma unique_loop_abac:
  assumes "a \<noteq> b" "a \<noteq> c" "b \<noteq> c"
  shows "unique_loop [a, b, a, c] 0 ([], [], []) = ([a, b, c], [0, 1, 3], [[0, 2], [1], [3]])"
  using assms by simp

text \<open>
  C1. Let the full parameter list of an operation be \<open>[a, b, a, c]\<close>, with \<open>a\<close>, \<open>b\<close>
  and \<open>c\<close> three different tensors, and let nothing be cached for the operation yet. Then
  \<^verbatim>\<open>_get_unique_params_idxs\<close>, called without the list (it asks \<^verbatim>\<open>getparams\<close>) or with
  it (as \<^verbatim>\<open>getuniqueparams\<close> calls it), returns \<open>[0, 1, 3]\<close> and stores the group map
  \<open>[[0, 2], [1], [3]]\<close> and the length 4; afterwards \<^verbatim>\<open>setuniqueparams(op, a2, b2, c2)\<close>
  is the call of \<^verbatim>\<open>setparams\<close> on \<open>[a2, b2, a2, c2]\<close>, whatever \<^verbatim>\<open>setparams\<close> is.
\<close>

theorem dedup_abac:
  assumes "a \<noteq> b" "a \<noteq> c" "b \<noteq> c"
    and "fresh_for name s"
    and "gp name (attrs s) = (Inr [a, b, a, c], u)"
    and "allparams = None \<or> allparams = Some [a, b, a, c]"
  shows "\<exists>s'. get_unique_params_idxs gp name allparams s = (Inr [0, 1, 3], s')
           \<and> cached s' name = (Some [0, 1, 3], Some [[0, 2], [1], [3]], Some 4)
           \<and> (\<forall>sp. setuniqueparams sp name [a2, b2, c2] s'
                    = run_user (sp name [a2, b2, a2, c2]) s')"
proof -
  have loop: "unique_loop [a, b, a, c] 0 ([], [], []) = ([a, b, c], [0, 1, 3], [[0, 2], [1], [3]])"
    using assms(1-3) by (rule unique_loop_abac)
  from assms(6) show ?thesis
  proof
    assume "allparams = None"
    then show ?thesis
      using first_call_None[where gp=gp and name=name and s=s and u=u and ps="[a, b, a, c]",
          OF assms(4,5)] loop
      by (simp add: setuniqueparams_def py_None_def numeral_eq_Suc store_unique_def cached_def)
  next
    assume "allparams = Some [a, b, a, c]"
    then show ?thesis
      using first_call_Some[OF assms(4), of gp "[a, b, a, c]"] loop
      by (simp add: setuniqueparams_def py_None_def numeral_eq_Suc store_unique_def cached_def)
  qed
qed

theorem dedup_abac_witness:
  "(1::nat) \<noteq> 2 \<and> (1::nat) \<noteq> 3 \<and> (2::nat) \<noteq> 3
   \<and> fresh_for ''f'' \<lparr>attrs = (), cache = None, printed = []\<rparr>
   \<and> (\<exists>s'. get_unique_params_idxs (\<lambda>n u. (Inr [1, 2, 1, 3], u)) ''f'' None
              \<lparr>attrs = (), cache = None, printed = []\<rparr> = (Inr [0, 1, 3], s')
          \<and> cached s' ''f'' = (Some [0, 1, 3], Some [[0, 2], [1], [3]], Some 4)
          \<and> (\<forall>sp. setuniqueparams sp ''f'' [4, 5, 6] s' = run_user (sp ''f'' [4, 5, 4, 6]) s'))"
  using dedup_abac[where a=1 and b=2 and c=3 and name="''f''" and allparams=None
      and s="\<lparr>attrs = (), cache = None, printed = []\<rparr>" and u="()"
      and gp="\<lambda>n u. (Inr [1, 2, 1, 3], u)" and ?a2.0=4 and ?b2.0=5 and ?c2.0=6]
  by (simp add: fresh_for_def)

text \<open>
  C7. The first call of \<^verbatim>\<open>_get_unique_params_idxs\<close> for an operation name (nothing cached
  for it; called without the list or with it) stores the unique-index list, the group map
  and the length of the full list. From then on, in every state that still holds the
  entry, a call for that name returns the stored list and leaves the whole state as it
  was, whatever \<^verbatim>\<open>getparams\<close> is and whatever list is passed: \<^verbatim>\<open>getparams\<close> is not called
  and nothing is computed again.
\<close>

theorem unique_idxs_computed_once:
  assumes "fresh_for name s"
    and "gp name (attrs s) = (Inr ps, u)"
    and "allparams = None \<or> allparams = Some ps"
    and "unique_loop ps 0 ([], [], []) = (ids, idxs, idx_map)"
  shows "\<exists>s1. get_unique_params_idxs gp name allparams s = (Inr idxs, s1)
           \<and> cached s1 name = (Some idxs, Some idx_map, Some (length ps))
           \<and> (\<forall>gp' allparams'. get_unique_params_idxs gp' name allparams' s1 = (Inr idxs, s1))
           \<and> (\<forall>gp' allparams' s2. cached s2 name = cached s1 name
                 \<longrightarrow> get_unique_params_idxs gp' name allparams' s2 = (Inr idxs, s2))"
proof -
  from assms(3) show ?thesis
  proof
    assume "allparams = None"
    then show ?thesis
      using first_call_None[where gp=gp and name=name and s=s and u=u and ps=ps,
          OF assms(1,2)] assms(4)
      by (simp add: cached_store_unique later_call)
  next
    assume "allparams = Some ps"
    then show ?thesis
      using first_call_Some[OF assms(1), of gp ps] assms(4)
      by (simp add: cached_store_unique later_call)
  qed
qed

theorem unique_idxs_computed_once_witness:
  "fresh_for ''f'' \<lparr>attrs = (), cache = None, printed = []\<rparr>
   \<and> unique_loop [7, 8, 7] 0 ([], [], []) = ([7, 8], [0, 1], [[0, 2], [1]])
   \<and> (\<exists>s1. get_unique_params_idxs (\<lambda>n u. (Inr [7, 8, 7], u)) ''f'' None
              \<lparr>attrs = (), cache = None, printed = []\<rparr> = (Inr [0, 1], s1)
          \<and> cached s1 ''f'' = (Some [0, 1], Some [[0, 2], [1]], Some 3)
          \<and> get_unique_params_idxs (\<lambda>n u. (Inl KeyError, u)) ''f'' None s1 = (Inr [0, 1], s1))"
proof -
  have f: "fresh_for ''f'' \<lparr>attrs = (), cache = None, printed = []\<rparr>"
    by (simp add: fresh_for_def)
  have l: "unique_loop [7, 8, 7] 0 ([], [], []) = ([7, 8], [0, 1], [[0, 2], [1]])"
    by simp
  show ?thesis
    using unique_idxs_computed_once[where gp="\<lambda>n u. (Inr [7, 8, 7], u)" and name="''f''"
        and s="\<lparr>attrs = (), cache = None, printed = []\<rparr>" and u="()" and ps="[7, 8, 7]"
        and allparams=None, OF f _ _ l] f l
    by auto
qed

section \<open>The unique-index loop and the rebuilt full list\<close>

lemma index_of_None: "index_of xs y = None \<longleftrightarrow> y \<notin> set xs"
  by (induction xs) (auto split: option.splits)

lemma index_of_Some: "index_of xs y = Some j \<Longrightarrow> j < length xs \<and> xs ! j = y"
  by (induction xs arbitrary: j) (auto split: option.splits if_splits)

lemma positions_snoc:
  "{i. i < Suc (length pre) \<and> (pre @ [p]) ! i = y}
     = {i. i < length pre \<and> pre ! i = y} \<union> (if p = y then {length pre} else {})"
proof -
  have "(i < Suc (length pre) \<and> (pre @ [p]) ! i = y)
        \<longleftrightarrow> (i < length pre \<and> pre ! i = y) \<or> (i = length pre \<and> p = y)" for i
    by (cases "i < length pre") (auto simp: nth_append)
  then show ?thesis by auto
qed

lemma unique_inv_step_found:
  assumes "unique_inv pre (ids, idxs, idx_map)" and "index_of ids p = Some j"
  shows "unique_inv (pre @ [p]) (ids, idxs, idx_map[j := idx_map ! j @ [length pre]])"
proof -
  from assms(2) have j: "j < length ids" and jp: "ids ! j = p"
    using index_of_Some[of ids p j] by simp_all
  from assms(1) have len: "length idxs = length ids" "length idx_map = length ids"
    and d: "distinct ids" and s: "set ids = set pre"
    and g: "\<And>k. k < length ids \<Longrightarrow> set (idx_map ! k) = {i. i < length pre \<and> pre ! i = ids ! k}"
    and f: "\<And>k. k < length ids \<Longrightarrow> idxs ! k < length pre \<and> pre ! (idxs ! k) = ids ! k"
    by (simp_all add: unique_inv_def)
  have p_in: "p \<in> set pre" using j jp s nth_mem[of j ids] by simp
  have g': "set ((idx_map[j := idx_map ! j @ [length pre]]) ! k)
              = {i. i < length (pre @ [p]) \<and> (pre @ [p]) ! i = ids ! k}" if k: "k < length ids" for k
  proof (cases "k = j")
    case True
    then show ?thesis using g[OF k] j jp len(2) by (simp add: positions_snoc)
  next
    case False
    then have "ids ! k \<noteq> p" using d j k jp nth_eq_iff_index_eq[OF d k j] by simp
    then show ?thesis using g[OF k] False by (simp add: positions_snoc)
  qed
  have f': "idxs ! k < length (pre @ [p]) \<and> (pre @ [p]) ! (idxs ! k) = ids ! k" if k: "k < length ids" for k
    using f[OF k] by (simp add: nth_append)
  have s': "set ids = set (pre @ [p])" using s p_in by auto
  show ?thesis
    unfolding unique_inv_def using len d s' g' f' by simp
qed

lemma unique_inv_step_new:
  assumes "unique_inv pre (ids, idxs, idx_map)" and "index_of ids p = None"
  shows "unique_inv (pre @ [p]) (ids @ [p], idxs @ [length pre], idx_map @ [[length pre]])"
proof -
  from assms(1) have len: "length idxs = length ids" "length idx_map = length ids"
    and d: "distinct ids" and s: "set ids = set pre"
    and g: "\<And>k. k < length ids \<Longrightarrow> set (idx_map ! k) = {i. i < length pre \<and> pre ! i = ids ! k}"
    and f: "\<And>k. k < length ids \<Longrightarrow> idxs ! k < length pre \<and> pre ! (idxs ! k) = ids ! k"
    by (simp_all add: unique_inv_def)
  from assms(2) have pn: "p \<notin> set ids" by (simp add: index_of_None)
  then have pn': "p \<notin> set pre" using s by simp
  have none: "{i. i < length pre \<and> pre ! i = p} = {}"
    using pn' nth_mem[of _ pre] by auto
  have g': "set ((idx_map @ [[length pre]]) ! k)
              = {i. i < length (pre @ [p]) \<and> (pre @ [p]) ! i = (ids @ [p]) ! k}"
    if k: "k < Suc (length ids)" for k
  proof (cases "k < length ids")
    case True
    then have ne: "ids ! k \<noteq> p" using pn nth_mem[of k ids] by auto
    have "(ids @ [p]) ! k = ids ! k" "(idx_map @ [[length pre]]) ! k = idx_map ! k"
      using True len by (simp_all add: nth_append)
    then show ?thesis using g[OF True] ne by (simp add: positions_snoc)
  next
    case False
    then have "k = length ids" using k by simp
    then have "(ids @ [p]) ! k = p" "(idx_map @ [[length pre]]) ! k = [length pre]"
      using len by (simp_all add: nth_append)
    then show ?thesis using none by (auto simp: positions_snoc)
  qed
  have f': "(idxs @ [length pre]) ! k < length (pre @ [p])
            \<and> (pre @ [p]) ! ((idxs @ [length pre]) ! k) = (ids @ [p]) ! k"
    if k: "k < Suc (length ids)" for k
  proof (cases "k < length ids")
    case True
    then show ?thesis using f[OF True] len by (simp add: nth_append)
  next
    case False
    then have "k = length ids" using k by simp
    then show ?thesis using len by (simp add: nth_append)
  qed
  have s': "set (ids @ [p]) = set (pre @ [p])" using s by simp
  have d': "distinct (ids @ [p])" using d pn by simp
  have len': "length (idxs @ [length pre]) = length (ids @ [p])"
    "length (idx_map @ [[length pre]]) = length (ids @ [p])" using len by simp_all
  show ?thesis
    unfolding unique_inv_def prod.case using len' d' s' g' f' by (simp del: set_append distinct_append)
qed

lemma unique_loop_inv:
  "unique_inv pre acc \<Longrightarrow> unique_inv (pre @ rest) (unique_loop rest (length pre) acc)"
proof (induction rest arbitrary: pre acc)
  case Nil
  then show ?case by simp
next
  case (Cons p rest)
  obtain ids idxs idx_map where acc: "acc = (ids, idxs, idx_map)" by (cases acc) auto
  show ?case
  proof (cases "index_of ids p")
    case None
    from unique_inv_step_new[OF Cons.prems[unfolded acc] None]
    have "unique_inv ((pre @ [p]) @ rest)
            (unique_loop rest (length (pre @ [p])) (ids @ [p], idxs @ [length pre], idx_map @ [[length pre]]))"
      by (rule Cons.IH)
    then show ?thesis using None acc by simp
  next
    case (Some j)
    from unique_inv_step_found[OF Cons.prems[unfolded acc] Some]
    have "unique_inv ((pre @ [p]) @ rest)
            (unique_loop rest (length (pre @ [p])) (ids, idxs, idx_map[j := idx_map ! j @ [length pre]]))"
      by (rule Cons.IH)
    then show ?thesis using Some acc by simp
  qed
qed

lemma unique_loop_result: "unique_inv ps (unique_loop ps 0 ([], [], []))"
  using unique_loop_inv[of "[]" "([], [], [])" ps] by (simp add: unique_inv_def)

lemma assign_group_ok:
  "\<forall>i\<in>set js. i < length all \<Longrightarrow>
   \<exists>all'. assign_group js p all = Inr all' \<and> length all' = length all
        \<and> (\<forall>k<length all. all' ! k = (if k \<in> set js then p else all ! k))"
proof (induction js arbitrary: all)
  case Nil
  then show ?case by simp
next
  case (Cons i js)
  from Cons.prems have i: "i < length all" and rest: "\<forall>x\<in>set js. x < length (all[i := p])"
    by simp_all
  from Cons.IH[OF rest] obtain all' where a: "assign_group js p (all[i := p]) = Inr all'"
    "length all' = length all"
    "\<forall>k<length all. all' ! k = (if k \<in> set js then p else (all[i := p]) ! k)"
    by auto
  have "\<forall>k<length all. all' ! k = (if k \<in> set (i # js) then p else all ! k)"
    using a(3) i by (auto simp: nth_list_update)
  then show ?case using a(1,2) i by simp
qed

lemma assign_groups_ok:
  assumes "\<forall>j<length m. \<forall>i\<in>set (m ! j). i < length all"
    and "\<forall>j1<length m. \<forall>j2<length m. j1 \<noteq> j2 \<longrightarrow> set (m ! j1) \<inter> set (m ! j2) = {}"
    and "j + length us \<le> length m"
  shows "\<exists>all'. assign_groups m us j all = Inr all' \<and> length all' = length all
           \<and> (\<forall>t<length us. \<forall>k\<in>set (m ! (j + t)). all' ! k = us ! t)
           \<and> (\<forall>k<length all. (\<forall>t<length us. k \<notin> set (m ! (j + t))) \<longrightarrow> all' ! k = all ! k)"
  using assms
proof (induction us arbitrary: j all)
  case Nil
  then show ?case by simp
next
  case (Cons p us)
  from Cons.prems(3) have j: "j < length m" and j': "Suc j + length us \<le> length m" by simp_all
  from Cons.prems(1) j have "\<forall>i\<in>set (m ! j). i < length all" by simp
  from assign_group_ok[OF this, of p] obtain all1 where
    a1: "assign_group (m ! j) p all = Inr all1" "length all1 = length all"
      "\<forall>k<length all. all1 ! k = (if k \<in> set (m ! j) then p else all ! k)"
    by auto
  have r1: "\<forall>j<length m. \<forall>i\<in>set (m ! j). i < length all1"
    using Cons.prems(1) a1(2) by simp
  from Cons.IH[OF r1 Cons.prems(2) j'] obtain all' where
    a2: "assign_groups m us (Suc j) all1 = Inr all'" "length all' = length all1"
      "\<forall>t<length us. \<forall>k\<in>set (m ! (Suc j + t)). all' ! k = us ! t"
      "\<forall>k<length all1. (\<forall>t<length us. k \<notin> set (m ! (Suc j + t))) \<longrightarrow> all' ! k = all1 ! k"
    by auto
  have eq: "assign_groups m (p # us) j all = Inr all'"
    using j a1(1) a2(1) by simp
  have written: "all' ! k = (p # us) ! t" if t: "t < length (p # us)" and k: "k \<in> set (m ! (j + t))" for t k
  proof (cases t)
    case 0
    have kl: "k < length all" using Cons.prems(1) j k 0 by auto
    have "k \<notin> set (m ! (Suc j + t'))" if "t' < length us" for t'
    proof -
      have "Suc j + t' < length m" using that j' by simp
      moreover have "j \<noteq> Suc j + t'" by simp
      ultimately have "set (m ! j) \<inter> set (m ! (Suc j + t')) = {}"
        using Cons.prems(2) j by blast
      then show ?thesis using k 0 by auto
    qed
    then have "all' ! k = all1 ! k" using a2(4) kl a1(2) by simp
    also have "\<dots> = p" using a1(3) kl k 0 by simp
    finally show ?thesis using 0 by simp
  next
    case (Suc t')
    then have "t' < length us" "k \<in> set (m ! (Suc j + t'))" using t k by simp_all
    then show ?thesis using a2(3) Suc by simp
  qed
  have kept: "all' ! k = all ! k"
    if kl: "k < length all" and no: "\<forall>t<length (p # us). k \<notin> set (m ! (j + t))" for k
  proof -
    from no have "k \<notin> set (m ! j)" by force
    moreover have "\<forall>t<length us. k \<notin> set (m ! (Suc j + t))"
    proof (intro allI impI)
      fix t assume "t < length us"
      then have "Suc t < length (p # us)" by simp
      with no have "k \<notin> set (m ! (j + Suc t))" by blast
      then show "k \<notin> set (m ! (Suc j + t))" by simp
    qed
    ultimately show ?thesis using a2(4) a1(2,3) kl by simp
  qed
  show ?case using eq a2(2) a1(2) written kept by auto
qed

lemma assign_groups_too_many:
  assumes "\<forall>j<length m. \<forall>i\<in>set (m ! j). i < length all"
    and "length m < j + length us" and "j \<le> length m"
  shows "assign_groups m us j all = Inl IndexError"
  using assms
proof (induction us arbitrary: j all)
  case Nil
  then show ?case by simp
next
  case (Cons p us)
  show ?case
  proof (cases "j < length m")
    case False
    then show ?thesis by simp
  next
    case True
    from Cons.prems(1) True have "\<forall>i\<in>set (m ! j). i < length all" by simp
    from assign_group_ok[OF this, of p] obtain all1 where
      a1: "assign_group (m ! j) p all = Inr all1" "length all1 = length all" by auto
    have "assign_groups m us (Suc j) all1 = Inl IndexError"
      using Cons.prems a1(2) True by (intro Cons.IH) simp_all
    then show ?thesis using True a1(1) by simp
  qed
qed

lemma select_idxs_map:
  "\<forall>i\<in>set js. i < length xs \<Longrightarrow> select_idxs xs js = Inr (map ((!) xs) js)"
  by (induction js) simp_all

lemma unique_groups:
  assumes "unique_loop ps 0 ([], [], []) = (ids, idxs, m)"
  shows "length idxs = length m"
    and "\<forall>j<length m. \<forall>i\<in>set (m ! j). i < length ps"
    and "\<forall>j1<length m. \<forall>j2<length m. j1 \<noteq> j2 \<longrightarrow> set (m ! j1) \<inter> set (m ! j2) = {}"
    and "\<forall>k<length ps. \<exists>j<length m. k \<in> set (m ! j)"
    and "\<forall>j<length m. \<forall>k\<in>set (m ! j). ps ! (idxs ! j) = ps ! k"
    and "\<forall>i\<in>set idxs. i < length ps"
    and "\<forall>j1<length m. \<forall>j2<length m. \<forall>k1\<in>set (m ! j1). \<forall>k2\<in>set (m ! j2).
           ps ! k1 = ps ! k2 \<longrightarrow> j1 = j2"
proof -
  from unique_loop_result[of ps] assms
  have len: "length idxs = length ids" "length m = length ids"
    and d: "distinct ids" and s: "set ids = set ps"
    and g: "\<And>j. j < length ids \<Longrightarrow> set (m ! j) = {i. i < length ps \<and> ps ! i = ids ! j}"
    and f: "\<And>j. j < length ids \<Longrightarrow> idxs ! j < length ps \<and> ps ! (idxs ! j) = ids ! j"
    by (simp_all add: unique_inv_def)
  show "length idxs = length m" using len by simp
  show "\<forall>j<length m. \<forall>i\<in>set (m ! j). i < length ps" using g len by simp
  show "\<forall>j1<length m. \<forall>j2<length m. j1 \<noteq> j2 \<longrightarrow> set (m ! j1) \<inter> set (m ! j2) = {}"
  proof (intro allI impI)
    fix j1 j2 assume j: "j1 < length m" "j2 < length m" "j1 \<noteq> j2"
    then have "ids ! j1 \<noteq> ids ! j2" using d len by (simp add: nth_eq_iff_index_eq)
    then show "set (m ! j1) \<inter> set (m ! j2) = {}" using g j len by auto
  qed
  show "\<forall>k<length ps. \<exists>j<length m. k \<in> set (m ! j)"
  proof (intro allI impI)
    fix k assume k: "k < length ps"
    then have "ps ! k \<in> set ids" using s by simp
    then obtain j where j: "j < length ids" "ids ! j = ps ! k" by (auto simp: in_set_conv_nth)
    then have "k \<in> set (m ! j)" using g k by simp
    then show "\<exists>j<length m. k \<in> set (m ! j)" using j len by auto
  qed
  show "\<forall>j<length m. \<forall>k\<in>set (m ! j). ps ! (idxs ! j) = ps ! k" using g f len by simp
  show "\<forall>i\<in>set idxs. i < length ps" using f len by (auto simp: in_set_conv_nth)
  show "\<forall>j1<length m. \<forall>j2<length m. \<forall>k1\<in>set (m ! j1). \<forall>k2\<in>set (m ! j2).
           ps ! k1 = ps ! k2 \<longrightarrow> j1 = j2"
  proof (intro allI impI ballI)
    fix j1 j2 k1 k2
    assume j: "j1 < length m" "j2 < length m" and k: "k1 \<in> set (m ! j1)" "k2 \<in> set (m ! j2)"
      and e: "ps ! k1 = ps ! k2"
    then have "ids ! j1 = ids ! j2" using g len by simp
    then show "j1 = j2" using d j len by (simp add: nth_eq_iff_index_eq)
  qed
qed

lemma rebuild_snapshot:
  assumes "unique_loop ps 0 ([], [], []) = (ids, idxs, m)"
  shows "select_idxs ps idxs = Inr (map ((!) ps) idxs)"
    and "assign_groups m (map ((!) ps) idxs) 0 (replicate (length ps) py_None) = Inr ps"
proof -
  note u = unique_groups[OF assms]
  show "select_idxs ps idxs = Inr (map ((!) ps) idxs)" using u(6) by (rule select_idxs_map)
  have r: "\<forall>j<length m. \<forall>i\<in>set (m ! j). i < length (replicate (length ps) py_None)"
    using u(2) by simp
  have l: "0 + length (map ((!) ps) idxs) \<le> length m" using u(1) by simp
  from assign_groups_ok[OF r u(3) l] obtain all' where
    a: "assign_groups m (map ((!) ps) idxs) 0 (replicate (length ps) py_None) = Inr all'"
      "length all' = length ps"
      "\<forall>t<length idxs. \<forall>k\<in>set (m ! t). all' ! k = ps ! (idxs ! t)"
    by auto
  have "all' ! k = ps ! k" if k: "k < length ps" for k
  proof -
    from u(4) k obtain j where j: "j < length m" "k \<in> set (m ! j)" by auto
    then have "all' ! k = ps ! (idxs ! j)" using a(3) u(1) by simp
    then show ?thesis using u(5) j by simp
  qed
  then have "all' = ps" using a(2) by (simp add: nth_equalityI)
  then show "assign_groups m (map ((!) ps) idxs) 0 (replicate (length ps) py_None) = Inr ps"
    using a(1) by simp
qed

lemma rebuild_too_many:
  assumes "unique_loop ps 0 ([], [], []) = (ids, idxs, m)" and "length m < length us"
  shows "assign_groups m us 0 (replicate (length ps) py_None) = Inl IndexError"
proof -
  note u = unique_groups[OF assms(1)]
  have r: "\<forall>j<length m. \<forall>i\<in>set (m ! j). i < length (replicate (length ps) py_None)"
    using u(2) by simp
  show ?thesis
    by (rule assign_groups_too_many[OF r]) (use assms(2) in simp_all)
qed

lemma rebuild_fits:
  assumes "unique_loop ps 0 ([], [], []) = (ids, idxs, m)" and "length us \<le> length m"
  shows "\<exists>all'. assign_groups m us 0 (replicate (length ps) py_None) = Inr all'
               \<and> same_aliasing ps all'"
proof -
  note u = unique_groups[OF assms(1)]
  have r: "\<forall>j<length m. \<forall>i\<in>set (m ! j). i < length (replicate (length ps) py_None)"
    using u(2) by simp
  have l: "0 + length us \<le> length m" using assms(2) by simp
  from assign_groups_ok[OF r u(3) l] obtain all' where
    a0: "assign_groups m us 0 (replicate (length ps) py_None) = Inr all'"
      "length all' = length (replicate (length ps) py_None)"
      "\<forall>t<length us. \<forall>k\<in>set (m ! (0 + t)). all' ! k = us ! t"
      "\<forall>k<length (replicate (length ps) py_None).
         (\<forall>t<length us. k \<notin> set (m ! (0 + t))) \<longrightarrow> all' ! k = replicate (length ps) py_None ! k"
    by blast
  have a2: "length all' = length ps" using a0(2) by simp
  have a3: "all' ! k = us ! t" if "t < length us" "k \<in> set (m ! t)" for t k
    using a0(3) that by simp
  have a4: "all' ! k = py_None" if "k < length ps" "\<And>t. t < length us \<Longrightarrow> k \<notin> set (m ! t)" for k
    using a0(4)[rule_format, of k] that by simp
  have other: "k \<notin> set (m ! t)" if "j < length m" "k \<in> set (m ! j)" "\<not> j < length us" "t < length us" for k j t
  proof -
    have "t \<noteq> j" "t < length m" using that assms(2) by auto
    then have "set (m ! t) \<inter> set (m ! j) = {}" using u(3)[rule_format, of t j] that(1) by simp
    then show ?thesis using that(2) by auto
  qed
  have al: "all' ! k1 = all' ! k2" if k: "k1 < length ps" "k2 < length ps" and e: "ps ! k1 = ps ! k2" for k1 k2
  proof -
    from u(4)[rule_format, OF k(1)] obtain j1 where j1: "j1 < length m" "k1 \<in> set (m ! j1)"
      by auto
    from u(4)[rule_format, OF k(2)] obtain j2 where j2: "j2 < length m" "k2 \<in> set (m ! j2)"
      by auto
    have same: "j1 = j2" by (rule u(7)[rule_format, OF j1(1) j2(1) j1(2) j2(2) e])
    show ?thesis
    proof (cases "j1 < length us")
      case True
      then show ?thesis using a3[OF True j1(2)] a3[of j2 k2] j2(2) same by simp
    next
      case False
      have "all' ! k1 = py_None" using a4[OF k(1)] other[OF j1 False] by simp
      moreover have "all' ! k2 = py_None" using a4[OF k(2)] other[OF j2] False same by simp
      ultimately show ?thesis by simp
    qed
  qed
  have "same_aliasing ps all'"
    unfolding same_aliasing_def
  proof (intro conjI allI impI)
    show "length all' = length ps" by (rule a2)
  next
    fix i j assume "i < length ps" "j < length ps" "ps ! i = ps ! j"
    then show "all' ! i = all' ! j" by (rule al)
  qed
  then show ?thesis using a0(1) by simp
qed

section \<open>The scoped substitution restores the parameters\<close>

lemma same_aliasing_refl: "same_aliasing pat pat"
  by (simp add: same_aliasing_def)

lemma setuniqueparams_cached:
  assumes "cached s name = (Some idxs, Some m, Some n)"
  shows "setuniqueparams sp name us s =
           (case assign_groups m us 0 (replicate n py_None) of
              Inl e \<Rightarrow> (Inl e, s)
            | Inr allparams \<Rightarrow> run_user (sp name allparams) s)"
  using assms by (cases "cache s") (simp_all add: cached_def setuniqueparams_def)

lemma setuniqueparams_frame:
  assumes "setuniqueparams sp name us s = (r, s')"
  shows "cache s' = cache s \<and> printed s' = printed s"
  using assms
  by (auto simp: setuniqueparams_def run_user_def split: option.splits sum.splits prod.splits)

lemma getuniqueparams_pure:
  assumes "gp name (attrs s) = (Inr pat, attrs s)"
    and "fresh_for name s \<or> cached s name = cached_for pat"
    and "unique_loop pat 0 ([], [], []) = (ids, idxs, m)"
  shows "\<exists>s1. getuniqueparams gp name s = (Inr (map ((!) pat) idxs), s1)
           \<and> cached s1 name = cached_for pat \<and> attrs s1 = attrs s \<and> printed s1 = printed s"
proof -
  have ru: "run_user (gp name) s = (Inr pat, s)"
    using assms(1) by (simp add: run_user_def)
  have sel: "select_idxs pat idxs = Inr (map ((!) pat) idxs)"
    using rebuild_snapshot(1)[OF assms(3)] .
  from assms(2) show ?thesis
  proof
    assume "fresh_for name s"
    from first_call_Some[OF this, of gp pat] show ?thesis
      using ru sel assms(3)
      by (simp add: getuniqueparams_def cached_store_unique cached_for_def)
  next
    assume c: "cached s name = cached_for pat"
    then have "fst (cached s name) = Some idxs" using assms(3) by (simp add: cached_for_def)
    from later_call[OF this, of gp "Some pat"] show ?thesis
      using ru sel c by (simp add: getuniqueparams_def)
  qed
qed

lemma restore_snapshot:
  assumes "params_contract gp sp name pat"
    and "cached s name = cached_for pat"
    and "unique_loop pat 0 ([], [], []) = (ids, idxs, m)"
  shows "\<exists>n s'. setuniqueparams sp name (map ((!) pat) idxs) s = (Inr n, s')
           \<and> gp name (attrs s') = (Inr pat, attrs s')
           \<and> cached s' name = cached_for pat \<and> printed s' = printed s"
proof -
  from assms(1) same_aliasing_refl[of pat] obtain n u' where
    sp: "sp name pat (attrs s) = (Inr n, u')" "gp name u' = (Inr pat, u')"
    unfolding params_contract_def by blast
  have c: "cached s name = (Some idxs, Some m, Some (length pat))"
    using assms(2,3) by (simp add: cached_for_def)
  have "setuniqueparams sp name (map ((!) pat) idxs) s = (Inr n, s\<lparr>attrs := u'\<rparr>)"
    using setuniqueparams_cached[OF c, of sp "map ((!) pat) idxs"]
      rebuild_snapshot(2)[OF assms(3)] sp(1)
    by (simp add: run_user_def)
  then show ?thesis using sp(2) assms(2) by simp
qed

lemma useparams_raised_restores:
  assumes "params_contract gp sp name pat"
    and "cached s name = cached_for pat"
    and "unique_loop pat 0 ([], [], []) = (ids, idxs, m)"
  shows "\<exists>s'. useparams_raised sp name (map ((!) pat) idxs) e s
                 = (if is_Exception e then Inr () else Inl e, s')
           \<and> gp name (attrs s') = (Inr pat, attrs s')
           \<and> cached s' name = cached_for pat
           \<and> printed s' = (if is_Exception e then printed s @ [e] else printed s)"
proof (cases "is_Exception e")
  case True
  have "cached (print_exc e s) name = cached_for pat" using assms(2) by (simp add: print_exc_def)
  from restore_snapshot[OF assms(1) this assms(3)] show ?thesis
    using True by (auto simp: useparams_raised_def print_exc_def)
next
  case False
  from restore_snapshot[OF assms(1,2,3)] show ?thesis
    using False by (auto simp: useparams_raised_def)
qed

lemma cached_cong: "cache s' = cache s \<Longrightarrow> cached s' name = cached s name"
  by (simp add: cached_def)

lemma getuniqueparams_cached:
  assumes "gp name (attrs s) = (Inr pat, attrs s)"
    and "cached s name = cached_for pat"
    and "unique_loop pat 0 ([], [], []) = (ids, idxs, m)"
  shows "getuniqueparams gp name s = (Inr (map ((!) pat) idxs), s)"
proof -
  have ru: "run_user (gp name) s = (Inr pat, s)"
    using assms(1) by (simp add: run_user_def)
  have "fst (cached s name) = Some idxs" using assms(2,3) by (simp add: cached_for_def)
  from later_call[OF this, of gp "Some pat"] show ?thesis
    using ru rebuild_snapshot(1)[OF assms(3)] by (simp add: getuniqueparams_def)
qed

text \<open>
  C2. Let \<^verbatim>\<open>getparams\<close> and \<^verbatim>\<open>setparams\<close> keep their contract for the operation, let
  \<open>pat\<close> be the full parameter list of the object when the \<^verbatim>\<open>with\<close> statement starts,
  let the cache hold nothing for the operation or what the first call computes from
  \<open>pat\<close>, and let the body leave the cache entries alone. Then however the statement
  \<^verbatim>\<open>with obj.useparams(name, *params): body\<close> ends (\<open>r\<close> is \<open>Inr ()\<close> when it completes
  and \<open>Inl e\<close> when \<open>e\<close> leaves it; the body may return or raise, and so may the
  installation of \<open>params\<close>), the object ends with its original parameters: \<^verbatim>\<open>getparams\<close>
  returns \<open>pat\<close> again and \<^verbatim>\<open>getuniqueparams\<close> returns the snapshot taken on entry, tensor by
  tensor the same. Any number of parameters is covered, none included.
\<close>

theorem useparams_restores:
  assumes "params_contract gp sp name pat"
    and "gp name (attrs s) = (Inr pat, attrs s)"
    and "fresh_for name s \<or> cached s name = cached_for pat"
    and "keeps_cached body name"
    and "with_useparams gp sp name params body s = (r, s')"
  shows "\<exists>orig s1. getuniqueparams gp name s = (Inr orig, s1)
           \<and> getuniqueparams gp name s' = (Inr orig, s')
           \<and> gp name (attrs s') = (Inr pat, attrs s')"
proof -
  obtain ids idxs m where ul: "unique_loop pat 0 ([], [], []) = (ids, idxs, m)"
    by (cases "unique_loop pat 0 ([], [], [])") auto
  let ?orig = "map ((!) pat) idxs"
  from getuniqueparams_pure[where gp=gp and name=name and s=s and pat=pat, OF assms(2,3) ul] obtain s1 where
    g1: "getuniqueparams gp name s = (Inr ?orig, s1)" and c1: "cached s1 name = cached_for pat"
    by auto
  obtain r2 s2 where i2: "setuniqueparams sp name params s1 = (r2, s2)"
    by (cases "setuniqueparams sp name params s1") auto
  have c2: "cached s2 name = cached_for pat"
    using setuniqueparams_frame[OF i2] c1 cached_cong[of s2 s1 name] by simp
  have final: "gp name (attrs s') = (Inr pat, attrs s') \<and> cached s' name = cached_for pat"
  proof (cases r2)
    case (Inl e)
    from useparams_raised_restores[OF assms(1) c2 ul, of e] obtain s3 where
      "useparams_raised sp name ?orig e s2 = (if is_Exception e then Inr () else Inl e, s3)"
      "gp name (attrs s3) = (Inr pat, attrs s3)" "cached s3 name = cached_for pat"
      by auto
    then show ?thesis
      using assms(5) g1 i2 Inl
      by (auto simp: with_useparams_def useparams_enter_def split: if_splits)
  next
    case (Inr n)
    obtain outcome s3 where b: "body s2 = (outcome, s3)" by (cases "body s2") auto
    have c3: "cached s3 name = cached_for pat"
      using assms(4) b c2 by (auto simp: keeps_cached_def)
    have ex: "with_useparams gp sp name params body s = useparams_exit sp name ?orig outcome s3"
      using g1 i2 Inr b by (simp add: with_useparams_def useparams_enter_def)
    show ?thesis
    proof (cases outcome)
      case (Inl e)
      from useparams_raised_restores[OF assms(1) c3 ul, of e] obtain s4 where
        "useparams_raised sp name ?orig e s3 = (if is_Exception e then Inr () else Inl e, s4)"
        "gp name (attrs s4) = (Inr pat, attrs s4)" "cached s4 name = cached_for pat"
        by auto
      then show ?thesis using ex assms(5) Inl by (auto simp: useparams_exit_def)
    next
      case (Inr u)
      from restore_snapshot[OF assms(1) c3 ul] obtain n' s4 where
        "setuniqueparams sp name ?orig s3 = (Inr n', s4)"
        "gp name (attrs s4) = (Inr pat, attrs s4)" "cached s4 name = cached_for pat"
        by auto
      then show ?thesis using ex assms(5) Inr by (auto simp: useparams_exit_def)
    qed
  qed
  then have "getuniqueparams gp name s' = (Inr ?orig, s')"
    using getuniqueparams_cached[where gp=gp and name=name and s=s' and pat=pat, OF _ _ ul] by simp
  then show ?thesis using g1 final by simp
qed

text \<open>
  C3. When the generator has reached its \<^verbatim>\<open>yield\<close>, the body raises an instance \<open>e\<close> of
  \<^verbatim>\<open>Exception\<close>, and the restoring call of \<^verbatim>\<open>setuniqueparams\<close> returns, then the \<^verbatim>\<open>with\<close>
  statement completes normally in the restored state: \<open>e\<close> has been printed by
  \<^verbatim>\<open>traceback.print_exc\<close> and is not raised again. (\<^verbatim>\<open>except Exception\<close> does not catch
  \<^verbatim>\<open>KeyboardInterrupt\<close> or \<^verbatim>\<open>SystemExit\<close>, which are no instances of \<^verbatim>\<open>Exception\<close>.)
\<close>

theorem useparams_swallows:
  assumes "useparams_enter gp sp name params s = (Inr orig, s1)"
    and "body s1 = (Inl e, s2)"
    and "is_Exception e"
    and "setuniqueparams sp name orig (print_exc e s2) = (Inr n, s3)"
  shows "with_useparams gp sp name params body s = (Inr (), s3)
         \<and> printed s3 = printed s2 @ [e]"
  using assms setuniqueparams_frame[OF assms(4)]
  by (simp add: with_useparams_def useparams_exit_def useparams_raised_def print_exc_def)

section \<open>Concrete instances of the substitution\<close>

lemma example_contract: "params_contract example_getparams example_setparams ''f'' [1, 2, 1, 3]"
  unfolding params_contract_def
proof (intro allI impI)
  fix u :: "addr \<times> addr \<times> addr" and ps :: "addr list"
  assume a: "same_aliasing [1, 2, 1, 3] ps"
  then have "length ps = 4" by (simp add: same_aliasing_def)
  then obtain p0 p1 p2 p3 where ps: "ps = [p0, p1, p2, p3]"
    by (auto simp: numeral_eq_Suc length_Suc_conv)
  from a have "ps ! 0 = ps ! 2" unfolding same_aliasing_def by simp
  then have "p0 = p2" using ps by simp
  then show "\<exists>n u'. example_setparams ''f'' ps u = (Inr n, u')
                \<and> example_getparams ''f'' u' = (Inr ps, u')"
    using ps by (simp add: example_setparams_def example_getparams_def)
qed

lemma keeps_cached_attrs: "keeps_cached (example_body outcome) name"
  by (simp add: keeps_cached_def example_body_def)

lemmas eval_defs = with_useparams_def useparams_enter_def useparams_exit_def useparams_raised_def
  getuniqueparams_def setuniqueparams_def get_unique_params_idxs_def run_user_def print_exc_def
  example_getparams_def example_setparams_def example_module_def empty_cache_def py_None_def
  example_body_def

theorem useparams_restores_witness:
  "params_contract example_getparams example_setparams ''f'' [1, 2, 1, 3]
   \<and> fresh_for ''f'' example_module
   \<and> keeps_cached (example_body (Inr ())) ''f''
   \<and> keeps_cached (example_body (Inl (UserException ''boom''))) ''f''
   \<and> (\<exists>s'. with_useparams example_getparams example_setparams ''f'' [4, 5, 6]
              (example_body (Inr ())) example_module = (Inr (), s')
          \<and> example_getparams ''f'' (attrs s') = (Inr [1, 2, 1, 3], attrs s')
          \<and> getuniqueparams example_getparams ''f'' s' = (Inr [1, 2, 3], s'))
   \<and> (\<exists>s'. with_useparams example_getparams example_setparams ''f'' [4, 5, 6]
              (example_body (Inl (UserException ''boom''))) example_module
              = (Inr (), s')
          \<and> example_getparams ''f'' (attrs s') = (Inr [1, 2, 1, 3], attrs s')
          \<and> getuniqueparams example_getparams ''f'' s' = (Inr [1, 2, 3], s'))"
proof -
  have g: "example_getparams ''f'' (attrs example_module)
             = (Inr [1, 2, 1, 3], attrs example_module)"
    by (simp add: example_getparams_def example_module_def)
  have f: "fresh_for ''f'' example_module" by (simp add: fresh_for_def example_module_def)
  have g0: "fst (getuniqueparams example_getparams ''f'' example_module) = Inr [1, 2, 3]"
    by (simp add: eval_defs)
  have r1: "fst (with_useparams example_getparams example_setparams ''f'' [4, 5, 6]
              (example_body (Inr ())) example_module) = Inr ()"
    by (simp add: eval_defs)
  have r2: "fst (with_useparams example_getparams example_setparams ''f'' [4, 5, 6]
              (example_body (Inl (UserException ''boom''))) example_module) = Inr ()"
    by (simp add: eval_defs)
  have p1: "\<exists>s'. with_useparams example_getparams example_setparams ''f'' [4, 5, 6]
              (example_body (Inr ())) example_module = (Inr (), s')
          \<and> example_getparams ''f'' (attrs s') = (Inr [1, 2, 1, 3], attrs s')
          \<and> getuniqueparams example_getparams ''f'' s' = (Inr [1, 2, 3], s')"
  proof -
    obtain r s' where e: "with_useparams example_getparams example_setparams ''f'' [4, 5, 6]
              (example_body (Inr ())) example_module = (r, s')"
      by (rule prod.exhaust)
    have r: "r = Inr ()" using r1 e by simp
    from useparams_restores[OF example_contract g disjI1[OF f] keeps_cached_attrs e]
    obtain orig s1 where o: "getuniqueparams example_getparams ''f'' example_module = (Inr orig, s1)"
      "getuniqueparams example_getparams ''f'' s' = (Inr orig, s')"
      "example_getparams ''f'' (attrs s') = (Inr [1, 2, 1, 3], attrs s')" by blast
    have "orig = [1, 2, 3]" using g0 o(1) by simp
    then show ?thesis using e r o by blast
  qed
  have p2: "\<exists>s'. with_useparams example_getparams example_setparams ''f'' [4, 5, 6]
              (example_body (Inl (UserException ''boom''))) example_module
              = (Inr (), s')
          \<and> example_getparams ''f'' (attrs s') = (Inr [1, 2, 1, 3], attrs s')
          \<and> getuniqueparams example_getparams ''f'' s' = (Inr [1, 2, 3], s')"
  proof -
    obtain r s' where e: "with_useparams example_getparams example_setparams ''f'' [4, 5, 6]
              (example_body (Inl (UserException ''boom''))) example_module
              = (r, s')"
      by (rule prod.exhaust)
    have r: "r = Inr ()" using r2 e by simp
    from useparams_restores[OF example_contract g disjI1[OF f] keeps_cached_attrs e]
    obtain orig s1 where o: "getuniqueparams example_getparams ''f'' example_module = (Inr orig, s1)"
      "getuniqueparams example_getparams ''f'' s' = (Inr orig, s')"
      "example_getparams ''f'' (attrs s') = (Inr [1, 2, 1, 3], attrs s')" by blast
    have "orig = [1, 2, 3]" using g0 o(1) by simp
    then show ?thesis using e r o by blast
  qed
  show ?thesis
    using example_contract f keeps_cached_attrs p1 p2 by blast
qed

theorem useparams_swallows_witness:
  "\<exists>s1 s2 s3. useparams_enter example_getparams example_setparams ''f'' [4, 5, 6] example_module
                 = (Inr [1, 2, 3], s1)
      \<and> example_body (Inl (UserException ''boom'')) s1 = (Inl (UserException ''boom''), s2)
      \<and> is_Exception (UserException ''boom'')
      \<and> setuniqueparams example_setparams ''f'' [1, 2, 3] (print_exc (UserException ''boom'') s2)
           = (Inr 4, s3)
      \<and> with_useparams example_getparams example_setparams ''f'' [4, 5, 6]
           (example_body (Inl (UserException ''boom''))) example_module = (Inr (), s3)
      \<and> printed s3 = printed s2 @ [UserException ''boom'']"
proof -
  define s1 where "s1 = snd (useparams_enter example_getparams example_setparams ''f'' [4, 5, 6]
                              example_module)"
  define s2 where "s2 = s1\<lparr>attrs := (7, 8, 9)\<rparr>"
  define s3 where "s3 = snd (setuniqueparams example_setparams ''f'' [1, 2, 3]
                              (print_exc (UserException ''boom'') s2))"
  have "fst (useparams_enter example_getparams example_setparams ''f'' [4, 5, 6] example_module)
          = Inr [1, 2, 3]"
    by (simp add: eval_defs)
  then have e1: "useparams_enter example_getparams example_setparams ''f'' [4, 5, 6] example_module
                   = (Inr [1, 2, 3], s1)"
    by (simp add: s1_def prod_eq_iff)
  have b: "example_body (Inl (UserException ''boom'')) s1 = (Inl (UserException ''boom''), s2)"
    by (simp add: example_body_def s2_def)
  have "fst (setuniqueparams example_setparams ''f'' [1, 2, 3]
               (print_exc (UserException ''boom'') s2)) = Inr 4"
    by (simp add: s2_def s1_def eval_defs)
  then have e3: "setuniqueparams example_setparams ''f'' [1, 2, 3]
                   (print_exc (UserException ''boom'') s2) = (Inr 4, s3)"
    by (simp add: s3_def prod_eq_iff)
  have x: "is_Exception (UserException ''boom'')" by simp
  from useparams_swallows[where body="example_body (Inl (UserException ''boom''))", OF e1 b x e3]
  show ?thesis
    using e1 b x e3 by blast
qed


section \<open>The traversal of one object\<close>

text \<open>A call of \<^verbatim>\<open>_traverse_obj\<close> without \<^verbatim>\<open>crit\<close> raises before anything else happens.\<close>

lemma traverse_obj_no_crit:
  "traverse_obj obj prefix action None max_depth exception_ids st = Inl TypeError"
  by (cases st) simp

lemma set_item_present:
  "item_assignable ob \<Longrightarrow> get_item ob k = Some e \<Longrightarrow> \<exists>ob'. set_item ob k v = Inr ob'"
  by (cases ob; cases k) (auto split: if_splits)

lemma map_of_dict_set:
  "map_of (dict_set k v a) k' = (if k' = k then Some v else map_of a k')"
  by (induction a) auto

lemma get_item_set_item:
  "set_item ob k v = Inr ob' \<Longrightarrow> get_item ob' k' = (if k' = k then Some v else get_item ob k')"
  by (cases ob; cases k; cases k') (auto simp: map_of_dict_set nth_list_update split: if_splits)

lemma map_fst_dict_set:
  "map_of a k = Some e \<Longrightarrow> map (\<lambda>kv. f (fst kv)) (dict_set k v a) = map (\<lambda>kv. f (fst kv)) a"
  by (induction a) (auto split: if_splits)

lemma obj_keys_set_item:
  "get_item ob k = Some e \<Longrightarrow> set_item ob k v = Inr ob' \<Longrightarrow> obj_keys ob' = obj_keys ob"
  by (cases ob; cases k) (auto simp: map_fst_dict_set split: if_splits)

lemma kind_set_item:
  "set_item ob k v = Inr ob' \<Longrightarrow>
     is_float_tensor ob' = is_float_tensor ob \<and> has_dict ob' = has_dict ob \<and> has_iter ob' = has_iter ob
     \<and> item_assignable ob' = item_assignable ob"
  by (cases ob; cases k) (auto split: if_splits)

lemma slots_of_keys:
  "distinct_keys ob \<Longrightarrow> obj_keys ob = Some ks \<Longrightarrow>
     list_all2 (\<lambda>k e. get_item ob k = Some e) ks (slot_values ob)"
proof (cases ob)
  case (Tensor d a)
  assume "distinct_keys ob" "obj_keys ob = Some ks"
  then have "distinct (map fst a)" "ks = map (\<lambda>kv. Attr (fst kv)) a" using Tensor by auto
  then show ?thesis using Tensor
    by (auto simp: list_all2_conv_all_nth)
next
  case (Instance a)
  assume "distinct_keys ob" "obj_keys ob = Some ks"
  then have "distinct (map fst a)" "ks = map (\<lambda>kv. Attr (fst kv)) a" using Instance by auto
  then show ?thesis using Instance
    by (auto simp: list_all2_conv_all_nth)
next
  case (PyList xs)
  assume "obj_keys ob = Some ks"
  then show ?thesis using PyList by (auto simp: list_all2_conv_all_nth)
next
  case (PyTuple xs)
  assume "obj_keys ob = Some ks"
  then show ?thesis using PyTuple by (auto simp: list_all2_conv_all_nth)
next
  case Atom
  assume "obj_keys ob = Some ks"
  then show ?thesis using Atom by simp
qed

lemma distinct_obj_keys:
  "distinct_keys ob \<Longrightarrow> obj_keys ob = Some ks \<Longrightarrow> distinct ks"
  by (cases ob) (auto simp: distinct_map inj_on_def)

lemma get_action_apply:
  "get_action elmt name objdict k ((res, names), h) = Inr ((res @ [elmt], names @ [name]), h)"
  by (simp add: get_action_def)

lemma set_action_apply:
  "set_action elmt name objdict k (all_params, h) =
     (case all_params of
        [] \<Rightarrow> Inl IndexError
      | p # rest \<Rightarrow>
          (case set_item (h objdict) k p of
             Inl e \<Rightarrow> Inl e
           | Inr obj' \<Rightarrow> Inr (rest, h(objdict := obj'))))"
  by (simp add: set_action_def)

lemma get_run:
  assumes "list_all2 (\<lambda>k e. get_item (h obj) k = Some e) ks es"
    and "\<forall>e\<in>set es. is_float_tensor (h e) \<or> \<not> (has_dict (h e) \<or> has_iter (h e))"
    and "distinct (filter (\<lambda>e. is_float_tensor (h e)) es)"
    and "\<forall>e\<in>set es. is_float_tensor (h e) \<longrightarrow> e \<notin> set ids"
  shows "\<exists>ids'. traverse_items obj ks fmt prefix get_action is_float_tensor md (ids, (res, names), h)
           = Inr (ids', (res @ filter (\<lambda>e. is_float_tensor (h e)) es,
                         names @ map (format_name fmt prefix)
                                   (matched_keys (\<lambda>e. is_float_tensor (h e)) ks es)), h)"
  using assms
proof (induction ks es arbitrary: ids res names rule: list_all2_induct)
  case Nil
  then show ?case by simp
next
  case (Cons k ks e es)
  let ?P = "\<lambda>e. is_float_tensor (h e)"
  show ?case
  proof (cases "e \<in> set ids")
    case True
    then have np: "\<not> ?P e" using Cons.prems(3) by auto
    have "\<exists>ids'. traverse_items obj ks fmt prefix get_action is_float_tensor md (ids, (res, names), h)
           = Inr (ids', (res @ filter ?P es,
                         names @ map (format_name fmt prefix) (matched_keys ?P ks es)), h)"
      using Cons.prems np by (intro Cons.IH) auto
    then show ?thesis using True np Cons.hyps(1) by simp
  next
    case False
    show ?thesis
    proof (cases "?P e")
      case True
      have "\<exists>ids'. traverse_items obj ks fmt prefix get_action is_float_tensor md
               (ids @ [e], (res @ [e], names @ [format_name fmt prefix k]), h)
           = Inr (ids', ((res @ [e]) @ filter ?P es,
                         (names @ [format_name fmt prefix k])
                           @ map (format_name fmt prefix) (matched_keys ?P ks es)), h)"
        using Cons.prems True by (intro Cons.IH) auto
      then show ?thesis using True False Cons.hyps(1) by (simp add: get_action_apply)
    next
      case np: False
      then have nc: "\<not> (has_dict (h e) \<or> has_iter (h e))" using Cons.prems(1) by auto
      have "\<exists>ids'. traverse_items obj ks fmt prefix get_action is_float_tensor md
               (ids @ [e], (res, names), h)
           = Inr (ids', (res @ filter ?P es,
                         names @ map (format_name fmt prefix) (matched_keys ?P ks es)), h)"
        using Cons.prems np by (intro Cons.IH) auto
      then show ?thesis using np nc False Cons.hyps(1) by simp
    qed
  qed
qed

lemma get_run_returns:
  assumes "traverse_items obj ks fmt prefix get_action is_float_tensor md (ids, acc, h) = Inr r"
    and "\<forall>e\<in>set ids. is_float_tensor (h e) \<or> \<not> (has_dict (h e) \<or> has_iter (h e))"
  shows "\<exists>es. list_all2 (\<lambda>k e. get_item (h obj) k = Some e) ks es
           \<and> (\<forall>e\<in>set es. is_float_tensor (h e) \<or> \<not> (has_dict (h e) \<or> has_iter (h e)))"
  using assms
proof (induction ks arbitrary: ids acc)
  case Nil
  then show ?case by simp
next
  case (Cons k ks)
  from Cons.prems(1) obtain e where e: "get_item (h obj) k = Some e"
    by (cases "get_item (h obj) k") (auto simp: prod_eq_iff)
  obtain res names where acc: "acc = (res, names)" by (cases acc) auto
  have ok: "is_float_tensor (h e) \<or> \<not> (has_dict (h e) \<or> has_iter (h e))"
  proof (cases "e \<in> set ids")
    case True
    then show ?thesis using Cons.prems(2) by auto
  next
    case False
    show ?thesis
    proof (rule ccontr)
      assume "\<not> ?thesis"
      then have "traverse_items obj (k # ks) fmt prefix get_action is_float_tensor md (ids, acc, h)
                   = Inl (if md > 0 then TypeError else RecursionError)"
        using e False by (simp add: traverse_obj_no_crit)
      then show False using Cons.prems(1) by simp
    qed
  qed
  have "\<exists>ids' acc'. traverse_items obj ks fmt prefix get_action is_float_tensor md (ids', acc', h) = Inr r
          \<and> set ids' \<subseteq> insert e (set ids)"
  proof (cases "e \<in> set ids")
    case True
    then have "traverse_items obj ks fmt prefix get_action is_float_tensor md (ids, acc, h) = Inr r"
      using Cons.prems(1) e by simp
    then show ?thesis by (intro exI[of _ ids] exI[of _ acc]) auto
  next
    case False
    show ?thesis
    proof (cases "is_float_tensor (h e)")
      case True
      then have "traverse_items obj ks fmt prefix get_action is_float_tensor md
                   (ids @ [e], (res @ [e], names @ [format_name fmt prefix k]), h) = Inr r"
        using Cons.prems(1) e False acc by (simp add: get_action_apply)
      then show ?thesis
        by (intro exI[of _ "ids @ [e]"] exI[of _ "(res @ [e], names @ [format_name fmt prefix k])"])
           auto
    next
      case np: False
      then have "\<not> (has_dict (h e) \<or> has_iter (h e))" using ok by simp
      then have "traverse_items obj ks fmt prefix get_action is_float_tensor md
                   (ids @ [e], acc, h) = Inr r"
        using Cons.prems(1) e False np by simp
      then show ?thesis by (intro exI[of _ "ids @ [e]"] exI[of _ acc]) auto
    qed
  qed
  then obtain ids' acc' where
    r: "traverse_items obj ks fmt prefix get_action is_float_tensor md (ids', acc', h) = Inr r"
    and sub: "set ids' \<subseteq> insert e (set ids)" by blast
  have "\<forall>a\<in>set ids'. is_float_tensor (h a) \<or> \<not> (has_dict (h a) \<or> has_iter (h a))"
    using sub ok Cons.prems(2) by auto
  from Cons.IH[OF r this] obtain es where
    "list_all2 (\<lambda>k e. get_item (h obj) k = Some e) ks es"
    "\<forall>e\<in>set es. is_float_tensor (h e) \<or> \<not> (has_dict (h e) \<or> has_iter (h e))" by blast
  then have "list_all2 (\<lambda>k e. get_item (h obj) k = Some e) (k # ks) (e # es)
           \<and> (\<forall>x\<in>set (e # es). is_float_tensor (h x) \<or> \<not> (has_dict (h x) \<or> has_iter (h x)))"
    using e ok by simp
  then show ?case by blast
qed

lemma set_run:
  assumes "list_all2 (\<lambda>k e. get_item (hc obj) k = Some e) ks es"
    and "distinct ks"
    and "\<forall>a. is_float_tensor (hc a) = P a"
    and "\<forall>a. (has_dict (hc a) \<or> has_iter (hc a)) = C a"
    and "\<forall>e\<in>set es. P e \<or> \<not> C e"
    and "distinct (filter P es)"
    and "\<forall>e\<in>set es. P e \<longrightarrow> e \<notin> set ids"
    and "length (filter P es) \<le> length new"
    and "item_assignable (hc obj)"
  shows "\<exists>ids' ob'. traverse_items obj ks fmt prefix set_action is_float_tensor md (ids, new, hc)
             = Inr (ids', drop (length (filter P es)) new, hc(obj := ob'))
           \<and> list_all2 (\<lambda>k e. get_item ob' k = Some e) ks (fill P es new)
           \<and> (\<forall>k. k \<notin> set ks \<longrightarrow> get_item ob' k = get_item (hc obj) k)
           \<and> obj_keys ob' = obj_keys (hc obj)
           \<and> is_float_tensor ob' = is_float_tensor (hc obj)
           \<and> has_dict ob' = has_dict (hc obj) \<and> has_iter ob' = has_iter (hc obj)"
  using assms
proof (induction ks arbitrary: es ids new hc)
  case Nil
  then have "es = []" by simp
  moreover have "hc(obj := hc obj) = hc" by simp
  ultimately show ?case by (intro exI[of _ ids] exI[of _ "hc obj"]) simp
next
  case (Cons k ks es0)
  from Cons.prems(1) obtain e es where es0: "es0 = e # es"
    and hyps: "get_item (hc obj) k = Some e" "list_all2 (\<lambda>k e. get_item (hc obj) k = Some e) ks es"
    by (auto simp: list_all2_Cons1)
  note prems = Cons.prems(2-)[unfolded es0]
  from prems(1) have kn: "k \<notin> set ks" and dks: "distinct ks" by simp_all
  have Pe: "is_float_tensor (hc e) = P e" using prems(2) by simp
  have Ce: "(has_dict (hc e) \<or> has_iter (hc e)) = C e" using prems(3) by simp
  show ?case
  proof (cases "P e \<and> e \<notin> set ids")
    case False
    then have np: "\<not> P e" using prems(6) by auto
    then have nc: "\<not> C e" using prems(4) by auto
    let ?ids = "if e \<in> set ids then ids else ids @ [e]"
    have step: "traverse_items obj (k # ks) fmt prefix set_action is_float_tensor md (ids, new, hc)
            = traverse_items obj ks fmt prefix set_action is_float_tensor md (?ids, new, hc)"
    proof (cases "e \<in> set ids")
      case True
      then show ?thesis using hyps(1) by simp
    next
      case False
      have "\<not> is_float_tensor (hc e)" "\<not> has_dict (hc e)" "\<not> has_iter (hc e)"
        using np nc Pe Ce by simp_all
      then show ?thesis using False hyps(1) by simp
    qed
    have "\<exists>ids' ob'. traverse_items obj ks fmt prefix set_action is_float_tensor md (?ids, new, hc)
             = Inr (ids', drop (length (filter P es)) new, hc(obj := ob'))
           \<and> list_all2 (\<lambda>k e. get_item ob' k = Some e) ks (fill P es new)
           \<and> (\<forall>k. k \<notin> set ks \<longrightarrow> get_item ob' k = get_item (hc obj) k)
           \<and> obj_keys ob' = obj_keys (hc obj)
           \<and> is_float_tensor ob' = is_float_tensor (hc obj)
           \<and> has_dict ob' = has_dict (hc obj) \<and> has_iter ob' = has_iter (hc obj)"
      using prems np dks hyps(2) by (intro Cons.IH) auto
    then obtain ids' ob' where r:
      "traverse_items obj ks fmt prefix set_action is_float_tensor md (?ids, new, hc)
             = Inr (ids', drop (length (filter P es)) new, hc(obj := ob'))"
      "list_all2 (\<lambda>k e. get_item ob' k = Some e) ks (fill P es new)"
      "\<forall>k. k \<notin> set ks \<longrightarrow> get_item ob' k = get_item (hc obj) k"
      "obj_keys ob' = obj_keys (hc obj)"
      "is_float_tensor ob' = is_float_tensor (hc obj)"
      "has_dict ob' = has_dict (hc obj)" "has_iter ob' = has_iter (hc obj)"
      by blast
    have hk: "get_item ob' k = Some e" using r(3) kn hyps(1) by simp
    have f: "filter P (e # es) = filter P es" "fill P (e # es) new = e # fill P es new"
      using np by simp_all
    have run: "traverse_items obj (k # ks) fmt prefix set_action is_float_tensor md (ids, new, hc)
             = Inr (ids', drop (length (filter P es)) new, hc(obj := ob'))"
      by (simp only: step r(1))
    have l2: "list_all2 (\<lambda>k e. get_item ob' k = Some e) (k # ks) (e # fill P es new)"
      using hk r(2) by simp
    have fr: "\<forall>k'. k' \<notin> set (k # ks) \<longrightarrow> get_item ob' k' = get_item (hc obj) k'"
      using r(3) by simp
    show ?thesis
      unfolding es0 f
      using run l2 fr r(4,5,6,7) by blast
  next
    case True
    then have pe: "P e" and ni: "e \<notin> set ids" by simp_all
    from prems(7) pe obtain n ns where new: "new = n # ns" by (cases new) auto
    from set_item_present[OF prems(8) hyps(1), of n] obtain o1 where
      o1: "set_item (hc obj) k n = Inr o1" by blast
    let ?h1 = "hc(obj := o1)"
    have step: "traverse_items obj (k # ks) fmt prefix set_action is_float_tensor md (ids, new, hc)
            = traverse_items obj ks fmt prefix set_action is_float_tensor md (ids @ [e], ns, ?h1)"
      using hyps(1) pe ni Pe new o1 by (simp add: set_action_apply)
    have g1: "get_item o1 k' = (if k' = k then Some n else get_item (hc obj) k')" for k'
      by (rule get_item_set_item[OF o1])
    have kind1: "is_float_tensor o1 = is_float_tensor (hc obj)" "has_dict o1 = has_dict (hc obj)"
      "has_iter o1 = has_iter (hc obj)"
      using kind_set_item[OF o1] by simp_all
    have a1: "list_all2 (\<lambda>k e. get_item (?h1 obj) k = Some e) ks es"
      using hyps(2) kn g1 by (auto simp: list_all2_conv_all_nth)
    have a3: "\<forall>a. is_float_tensor (?h1 a) = P a" using prems(2) kind1 by auto
    have a4: "\<forall>a. (has_dict (?h1 a) \<or> has_iter (?h1 a)) = C a" using prems(3) kind1 by auto
    have a5: "\<forall>e\<in>set es. P e \<or> \<not> C e" using prems(4) by simp
    have a6: "distinct (filter P es)" using prems(5) by (simp split: if_splits)
    have a7: "\<forall>x\<in>set es. P x \<longrightarrow> x \<notin> set (ids @ [e])"
      using prems(5,6) pe by auto
    have a8: "length (filter P es) \<le> length ns" using prems(7) pe new by simp
    have a9: "item_assignable (?h1 obj)" using prems(8) kind_set_item[OF o1] by simp
    from Cons.IH[OF a1 dks a3 a4 a5 a6 a7 a8 a9]
    obtain ids' ob' where r:
      "traverse_items obj ks fmt prefix set_action is_float_tensor md (ids @ [e], ns, ?h1)
             = Inr (ids', drop (length (filter P es)) ns, ?h1(obj := ob'))"
      "list_all2 (\<lambda>k e. get_item ob' k = Some e) ks (fill P es ns)"
      "\<forall>k. k \<notin> set ks \<longrightarrow> get_item ob' k = get_item (?h1 obj) k"
      "obj_keys ob' = obj_keys (?h1 obj)"
      "is_float_tensor ob' = is_float_tensor (?h1 obj)"
      "has_dict ob' = has_dict (?h1 obj)" "has_iter ob' = has_iter (?h1 obj)"
      by blast
    have hk: "get_item ob' k = Some n" using r(3) kn g1 by simp
    have fr: "\<forall>k'. k' \<notin> set (k # ks) \<longrightarrow> get_item ob' k' = get_item (hc obj) k'"
      using r(3) g1 by simp
    have ok: "obj_keys ob' = obj_keys (hc obj)"
      using r(4) obj_keys_set_item[OF hyps(1) o1] by simp
    have f: "length (filter P (e # es)) = Suc (length (filter P es))"
      "fill P (e # es) new = n # fill P es ns"
      using pe new by simp_all
    have upd: "?h1(obj := ob') = hc(obj := ob')" by simp
    have run: "traverse_items obj (k # ks) fmt prefix set_action is_float_tensor md (ids, new, hc)
             = Inr (ids', drop (Suc (length (filter P es))) new, hc(obj := ob'))"
      using step r(1) upd new by simp
    have l2: "list_all2 (\<lambda>k e. get_item ob' k = Some e) (k # ks) (n # fill P es ns)"
      using hk r(2) by simp
    have k5: "is_float_tensor ob' = is_float_tensor (hc obj)" "has_dict ob' = has_dict (hc obj)"
      "has_iter ob' = has_iter (hc obj)"
      using r(5,6,7) kind1 by simp_all
    show ?thesis
      unfolding es0 f
      using run l2 fr ok k5 by blast
  qed
qed

lemma filter_fill:
  "\<forall>n\<in>set new. P n \<Longrightarrow> length (filter P es) = length new \<Longrightarrow> filter P (fill P es new) = new"
proof (induction es arbitrary: new)
  case Nil
  then show ?case by simp
next
  case (Cons e es)
  show ?case
  proof (cases "P e")
    case True
    with Cons.prems obtain n ns where "new = n # ns" by (cases new) auto
    then show ?thesis using True Cons by simp
  next
    case False
    then show ?thesis using Cons by simp
  qed
qed

lemma matched_keys_fill:
  "\<forall>n\<in>set new. P n \<Longrightarrow> length (filter P es) = length new \<Longrightarrow>
     matched_keys P ks (fill P es new) = matched_keys P ks es"
proof (induction es arbitrary: new ks)
  case Nil
  then show ?case by simp
next
  case (Cons e es)
  show ?case
  proof (cases ks)
    case Nil
    then show ?thesis by (cases "fill P (e # es) new") simp_all
  next
    case ks: (Cons k ks')
    show ?thesis
    proof (cases "P e")
      case True
      with Cons.prems obtain n ns where "new = n # ns" by (cases new) auto
      then show ?thesis using True Cons ks by simp
    next
      case False
      then show ?thesis using Cons ks by simp
    qed
  qed
qed

lemma fill_kinds:
  "\<forall>e\<in>set es. P e \<or> \<not> C e \<Longrightarrow> \<forall>n\<in>set new. P n \<Longrightarrow> \<forall>x\<in>set (fill P es new). P x \<or> \<not> C x"
proof (induction es arbitrary: new)
  case Nil
  then show ?case by simp
next
  case (Cons e es)
  have es: "\<forall>e\<in>set es. P e \<or> \<not> C e" and e: "P e \<or> \<not> C e" using Cons.prems(1) by simp_all
  show ?case
  proof (cases new)
    case Nil
    have "\<forall>x\<in>set (fill P es []). P x \<or> \<not> C x" using Cons.IH[OF es, of "[]"] by simp
    then show ?thesis using Nil e by auto
  next
    case new: (Cons n ns)
    have n: "P n" "\<forall>x\<in>set ns. P x" using Cons.prems(2) new by simp_all
    have "\<forall>x\<in>set (fill P es ns). P x \<or> \<not> C x" using Cons.IH[OF es n(2)] .
    moreover have "\<forall>x\<in>set (fill P es new). P x \<or> \<not> C x" using Cons.IH[OF es Cons.prems(2)] .
    ultimately show ?thesis using new e n(1) by auto
  qed
qed

lemma slots_unique:
  "list_all2 (\<lambda>k e. f k = Some e) ks es \<Longrightarrow> list_all2 (\<lambda>k e. f k = Some e) ks es' \<Longrightarrow> es = es'"
proof (induction ks arbitrary: es es')
  case Nil
  then show ?case by simp
next
  case (Cons k ks)
  then show ?case by (auto simp: list_all2_Cons1)
qed

lemma get_run_P:
  assumes "list_all2 (\<lambda>k e. get_item (h obj) k = Some e) ks es"
    and "\<forall>a. is_float_tensor (h a) = P a"
    and "\<forall>a. (has_dict (h a) \<or> has_iter (h a)) = C a"
    and "\<forall>e\<in>set es. P e \<or> \<not> C e"
    and "distinct (filter P es)"
    and "\<forall>e\<in>set es. P e \<longrightarrow> e \<notin> set ids"
  shows "\<exists>ids'. traverse_items obj ks fmt prefix get_action is_float_tensor md (ids, (res, names), h)
           = Inr (ids', (res @ filter P es,
                         names @ map (format_name fmt prefix) (matched_keys P ks es)), h)"
proof -
  have eq: "P = (\<lambda>e. is_float_tensor (h e))" using assms(2) by auto
  have k: "\<forall>e\<in>set es. is_float_tensor (h e) \<or> \<not> (has_dict (h e) \<or> has_iter (h e))"
    using assms(2,3,4) by simp
  show ?thesis
    unfolding eq
    by (rule get_run[OF assms(1) k assms(5)[unfolded eq] assms(6)[unfolded eq]])
qed

text \<open>
  C5, as amended. Let the object hold its slots in an attribute dictionary or be a list
  (so that its slots accept assignment), let its traversal by \<^verbatim>\<open>_get_tensors\<close> return,
  matching the slots of the tensors \<open>ts\<close> under the names \<open>names\<close>, and let no float tensor
  occupy two slots of the object. Then \<^verbatim>\<open>_set_tensors\<close> with as many pairwise different float tensors
  consumes them all and returns, and \<^verbatim>\<open>_get_tensors\<close> on the object then returns exactly the
  supplied tensors, in the order supplied, under the same names. (The depth bounds of the
  two calls may differ. An object with a nested container is not covered: its traversal
  does not return.)
\<close>

theorem set_then_get_flat:
  assumes g: "get_tensors h obj prefix md = Inr (ts, names)"
    and ia: "item_assignable (h obj)"
    and dk: "distinct_keys (h obj)"
    and na: "distinct (filter (\<lambda>a. is_float_tensor (h a)) (slot_values (h obj)))"
    and ln: "length new = length ts"
    and dn: "distinct new"
    and fn: "\<forall>p\<in>set new. is_float_tensor (h p)"
  shows "\<exists>h'. set_tensors h obj new md' = Inr ([], h')
           \<and> get_tensors h' obj prefix md = Inr (new, names)"
proof -
  let ?P = "\<lambda>a. is_float_tensor (h a)"
  let ?C = "\<lambda>a. has_dict (h a) \<or> has_iter (h a)"
  let ?fmt = "if has_dict (h obj) then Dotted else Bracketed"
  let ?es = "slot_values (h obj)"
  from g obtain ks where ks: "obj_keys (h obj) = Some ks"
    by (cases "obj_keys (h obj)") (auto simp: get_tensors_def)
  from g ks obtain ids0 h0 where
    r: "traverse_items obj ks ?fmt prefix get_action is_float_tensor md ([], ([], []), h)
          = Inr (ids0, (ts, names), h0)"
    by (auto simp: get_tensors_def split: sum.splits)
  have l2: "list_all2 (\<lambda>k e. get_item (h obj) k = Some e) ks ?es"
    using slots_of_keys[OF dk ks] .
  have dks: "distinct ks" using distinct_obj_keys[OF dk ks] .
  have "\<forall>e\<in>set []. ?P e \<or> \<not> ?C e" by simp
  from get_run_returns[OF r this] obtain es' where
    es': "list_all2 (\<lambda>k e. get_item (h obj) k = Some e) ks es'" "\<forall>e\<in>set es'. ?P e \<or> \<not> ?C e"
    by blast
  have "es' = ?es" using slots_unique[OF es'(1) l2] .
  then have kinds: "\<forall>e\<in>set ?es. ?P e \<or> \<not> ?C e" using es'(2) by simp
  have noids: "\<forall>e\<in>set ?es. ?P e \<longrightarrow> e \<notin> set []" by simp
  from get_run[OF l2 kinds na noids, of ?fmt prefix md "[]" "[]"] r
  have ts: "ts = filter ?P ?es"
    and nm: "names = map (format_name ?fmt prefix) (matched_keys ?P ks ?es)"
    by auto
  have len: "length (filter ?P ?es) \<le> length new" using ln ts by simp
  have kP: "\<forall>a. is_float_tensor (h a) = ?P a" by simp
  have kC: "\<forall>a. (has_dict (h a) \<or> has_iter (h a)) = ?C a" by simp
  from set_run[where hc=h and obj=obj and ks=ks and es="?es" and P="?P" and C="?C"
      and ids="[]" and new=new and fmt="?fmt" and prefix="''self''" and md=md',
      OF l2 dks kP kC kinds na noids len ia]
  obtain ids' ob' where s:
    "traverse_items obj ks ?fmt ''self'' set_action is_float_tensor md' ([], new, h)
       = Inr (ids', drop (length (filter ?P ?es)) new, h(obj := ob'))"
    "list_all2 (\<lambda>k e. get_item ob' k = Some e) ks (fill ?P ?es new)"
    "obj_keys ob' = obj_keys (h obj)"
    "is_float_tensor ob' = is_float_tensor (h obj)"
    "has_dict ob' = has_dict (h obj)" "has_iter ob' = has_iter (h obj)"
    by auto
  let ?h' = "h(obj := ob')"
  have dr: "drop (length (filter ?P ?es)) new = []" using ln ts by simp
  have set: "set_tensors h obj new md' = Inr ([], ?h')"
    using ks s(1) dr by (simp add: set_tensors_def)
  have kP': "\<forall>a. is_float_tensor (?h' a) = ?P a" using s(4) by simp
  have kC': "\<forall>a. (has_dict (?h' a) \<or> has_iter (?h' a)) = ?C a" using s(5,6) by simp
  have fl: "length (filter ?P ?es) = length new" using ln ts by simp
  have l2': "list_all2 (\<lambda>k e. get_item (?h' obj) k = Some e) ks (fill ?P ?es new)"
    using s(2) by simp
  have kinds': "\<forall>e\<in>set (fill ?P ?es new). ?P e \<or> \<not> ?C e"
    using fill_kinds[of ?es ?P ?C new] kinds fn by simp
  have na': "distinct (filter ?P (fill ?P ?es new))"
    using filter_fill[OF fn fl] dn by simp
  have noids': "\<forall>e\<in>set (fill ?P ?es new). ?P e \<longrightarrow> e \<notin> set []" by simp
  from get_run_P[where h="?h'" and obj=obj and ks=ks and es="fill ?P ?es new" and P="?P"
      and C="?C" and ids="[]" and fmt="?fmt" and prefix=prefix and md=md and res="[]"
      and names="[]", OF l2' kP' kC' kinds' na' noids']
  obtain ids'' where
    "traverse_items obj ks ?fmt prefix get_action is_float_tensor md ([], ([], []), ?h')
       = Inr (ids'', (filter ?P (fill ?P ?es new),
                      map (format_name ?fmt prefix) (matched_keys ?P ks (fill ?P ?es new))), ?h')"
    by auto
  then have "traverse_items obj ks ?fmt prefix get_action is_float_tensor md ([], ([], []), ?h')
       = Inr (ids'', (new, names), ?h')"
    using filter_fill[OF fn fl] matched_keys_fill[OF fn fl, of ks] nm by simp
  then have get: "get_tensors ?h' obj prefix md = Inr (new, names)"
    using ks s(3,5) by (simp add: get_tensors_def)
  show ?thesis using set get by blast
qed

section \<open>The traversal on concrete object graphs\<close>

lemmas store_eval = store_of_def get_tensors_def set_tensors_def get_action_apply set_action_apply
  torch_float_type_def traverse_obj_no_crit

text \<open>
  C5 as stated fails on an object without nesting. The traversal of \<open>flat_store\<close> matches
  two slots; after installing the list \<open>[3, 3]\<close> (one tensor twice), collecting returns the
  one tensor \<open>[3]\<close>. The traversal of \<open>alias_store\<close>, whose two attributes hold one tensor,
  matches one slot; after installing \<open>[3]\<close>, collecting returns \<open>[3, 1]\<close>: the second
  attribute still holds the old tensor. The traversal of the tuple in \<open>tuple_store\<close> matches
  two slots, and installing two tensors raises \<^verbatim>\<open>TypeError\<close>: a tuple does not accept
  \<^verbatim>\<open>objdict[key] = ...\<close>.
\<close>

theorem set_then_get_counterexample:
  "get_tensors flat_store 10 ''self'' 20 = Inr ([1, 2], [''self.a'', ''self.b''])
   \<and> set_tensors flat_store 10 [3, 3] 20
       = Inr ([], flat_store(10 := Instance [(''a'', 3), (''b'', 3)]))
   \<and> get_tensors (flat_store(10 := Instance [(''a'', 3), (''b'', 3)])) 10 ''self'' 20
       = Inr ([3], [''self.a''])
   \<and> get_tensors alias_store 10 ''self'' 20 = Inr ([1], [''self.a''])
   \<and> set_tensors alias_store 10 [3] 20
       = Inr ([], alias_store(10 := Instance [(''a'', 3), (''b'', 1)]))
   \<and> get_tensors (alias_store(10 := Instance [(''a'', 3), (''b'', 1)])) 10 ''self'' 20
       = Inr ([3, 1], [''self.a'', ''self.b''])
   \<and> get_tensors tuple_store 10 ''self'' 20 = Inr ([1, 2], [''self[0]'', ''self[1]''])
   \<and> set_tensors tuple_store 10 [3, 4] 20 = Inl TypeError"
  by (simp add: store_eval flat_store_def alias_store_def tuple_store_def str_nat.simps
        digit_char_def)

theorem set_then_get_flat_witness:
  "get_tensors flat_store 10 ''self'' 20 = Inr ([1, 2], [''self.a'', ''self.b''])
   \<and> item_assignable (flat_store 10) \<and> distinct_keys (flat_store 10)
   \<and> distinct (filter (\<lambda>a. is_float_tensor (flat_store a)) (slot_values (flat_store 10)))
   \<and> length [3, 4 :: addr] = length [1, 2 :: addr] \<and> distinct [3, 4 :: addr]
   \<and> is_float_tensor (flat_store 3) \<and> is_float_tensor (flat_store 4)
   \<and> (\<exists>h'. set_tensors flat_store 10 [3, 4] 20 = Inr ([], h')
          \<and> get_tensors h' 10 ''self'' 20 = Inr ([3, 4], [''self.a'', ''self.b'']))"
proof -
  have g: "get_tensors flat_store 10 ''self'' 20 = Inr ([1, 2], [''self.a'', ''self.b''])"
    by (simp add: store_eval flat_store_def)
  have dk: "distinct_keys (flat_store 10)" by (simp add: flat_store_def store_of_def)
  have ia: "item_assignable (flat_store 10)" by (simp add: flat_store_def store_of_def)
  have na: "distinct (filter (\<lambda>a. is_float_tensor (flat_store a)) (slot_values (flat_store 10)))"
    by (simp add: flat_store_def store_of_def torch_float_type_def)
  have fl: "is_float_tensor (flat_store 3)" "is_float_tensor (flat_store 4)"
    by (simp_all add: flat_store_def store_of_def torch_float_type_def)
  have fn: "\<forall>p\<in>set [3, 4]. is_float_tensor (flat_store p)" using fl by simp
  from set_then_get_flat[OF g ia dk na _ _ fn, of 20] show ?thesis
    using g ia dk na fl by simp
qed

text \<open>
  C6. On the cyclic graph of objects 10 and 11 the traversal does not visit each tensor
  once: the call of \<^verbatim>\<open>_get_tensors\<close> raises \<^verbatim>\<open>TypeError\<close> when it reaches object 11, before the
  tensors 2 and 3 are seen.
\<close>

theorem cyclic_traversal_raises:
  "get_tensors cyclic_store 10 ''self'' 20 = Inl TypeError"
  by (simp add: store_eval cyclic_store_def)

text \<open>
  C8. With the bound 1 and a graph nested two levels deep, the traversal raises
  \<^verbatim>\<open>TypeError\<close> at the first nested container, not \<^verbatim>\<open>RecursionError\<close>; the latter is
  raised only when a container is met with the bound at 0.
\<close>

theorem depth_bound_raises_type_error:
  "get_tensors deep_store 10 ''self'' 1 = Inl TypeError
   \<and> get_tensors deep_store 10 ''self'' 0 = Inl RecursionError"
  by (simp add: store_eval deep_store_def)

text \<open>
  C10. When the two slots that hold one tensor are slots of a nested list, collecting
  and installing both raise \<^verbatim>\<open>TypeError\<close>: the tensor is not collected once and nothing is
  written. (For two attributes of the traversed object itself, \<open>alias_store\<close> above, the code
  collects the tensor once and rewrites the first attribute only.)
\<close>

theorem nested_alias_raises:
  "get_tensors nested_alias_store 10 ''self'' 20 = Inl TypeError
   \<and> set_tensors nested_alias_store 10 [3] 20 = Inl TypeError"
  by (simp add: store_eval nested_alias_store_def)

text \<open>
  C9 as stated fails: the attribute \<open>n\<close> of object 10 holds a value that is no float tensor
  and exposes neither \<^verbatim>\<open>__dict__\<close> nor \<^verbatim>\<open>__iter__\<close>, and the traversal returns normally.
\<close>

theorem atom_element_counterexample:
  "\<not> is_float_tensor (atom_store 5) \<and> \<not> has_dict (atom_store 5) \<and> \<not> has_iter (atom_store 5)
   \<and> get_item (atom_store 10) (Attr ''n'') = Some 5
   \<and> get_tensors atom_store 10 ''self'' 20 = Inr ([1], [''self.w''])"
  by (simp add: store_eval atom_store_def)

text \<open>
  C9, as amended. The object passed to \<^verbatim>\<open>_traverse_obj\<close> raises \<^verbatim>\<open>RuntimeError\<close> when it
  exposes neither \<^verbatim>\<open>__dict__\<close> nor \<^verbatim>\<open>__iter__\<close>. A slot value that fails the criterion and
  exposes neither is skipped: the loop goes on with the next key, the value recorded in
  \<^verbatim>\<open>exception_ids\<close> unless it was there already, and nothing else changed.
\<close>

theorem structural_error_root_only:
  "(\<not> has_dict (h obj) \<and> \<not> has_iter (h obj) \<longrightarrow>
      traverse_obj obj prefix action (Some c) md eids (acc, h) = Inl RuntimeError)
   \<and> (get_item (h obj) k = Some elmt \<and> \<not> c (h elmt) \<and> \<not> has_dict (h elmt) \<and> \<not> has_iter (h elmt) \<longrightarrow>
        traverse_items obj (k # ks) fmt prefix action c md (ids, acc, h)
        = traverse_items obj ks fmt prefix action c md
            (if elmt \<in> set ids then ids else ids @ [elmt], acc, h))"
proof (intro conjI impI)
  assume "\<not> has_dict (h obj) \<and> \<not> has_iter (h obj)"
  then have "h obj = Atom" by (cases "h obj") simp_all
  then show "traverse_obj obj prefix action (Some c) md eids (acc, h) = Inl RuntimeError"
    by simp
next
  assume "get_item (h obj) k = Some elmt \<and> \<not> c (h elmt) \<and> \<not> has_dict (h elmt) \<and> \<not> has_iter (h elmt)"
  then show "traverse_items obj (k # ks) fmt prefix action c md (ids, acc, h)
        = traverse_items obj ks fmt prefix action c md
            (if elmt \<in> set ids then ids else ids @ [elmt], acc, h)"
    by simp
qed

theorem structural_error_root_only_witness:
  "\<not> has_dict (atom_store 5) \<and> \<not> has_iter (atom_store 5)
   \<and> traverse_obj 5 ''self'' get_action (Some is_float_tensor) 20 None (([], []), atom_store)
       = Inl RuntimeError
   \<and> get_item (atom_store 10) (Attr ''n'') = Some 5 \<and> \<not> is_float_tensor (atom_store 5)
   \<and> traverse_items 10 [Attr ''n'', Attr ''w''] Dotted ''self'' get_action is_float_tensor 20
        ([], ([], []), atom_store)
       = traverse_items 10 [Attr ''w''] Dotted ''self'' get_action is_float_tensor 20
        ([5], ([], []), atom_store)"
proof -
  have a: "\<not> has_dict (atom_store 5) \<and> \<not> has_iter (atom_store 5)"
    by (simp add: atom_store_def store_of_def)
  have b: "get_item (atom_store 10) (Attr ''n'') = Some 5 \<and> \<not> is_float_tensor (atom_store 5)
           \<and> \<not> has_dict (atom_store 5) \<and> \<not> has_iter (atom_store 5)"
    by (simp add: atom_store_def store_of_def)
  have r1: "traverse_obj 5 ''self'' get_action (Some is_float_tensor) 20 None (([], []), atom_store)
       = Inl RuntimeError"
    using structural_error_root_only[of atom_store 5 "''self''" get_action is_float_tensor 20 None
      "([], [])" "Attr ''n''" 5 "[Attr ''w'']" Dotted "[]"] a by blast
  have r2: "traverse_items 10 [Attr ''n'', Attr ''w''] Dotted ''self'' get_action is_float_tensor 20
        ([], ([], []), atom_store)
       = traverse_items 10 [Attr ''w''] Dotted ''self'' get_action is_float_tensor 20
        (if (5::addr) \<in> set [] then [] else [] @ [5], ([], []), atom_store)"
    using structural_error_root_only[of atom_store 10 "''self''" get_action is_float_tensor 20 None
      "([], [])" "Attr ''n''" 5 "[Attr ''w'']" Dotted "[]"] b by blast
  show ?thesis using a b r1 r2 by simp
qed

section \<open>The verdicts of the gradient-probing check\<close>

lemma nonfloat_loop_ok:
  "\<forall>p\<in>set us. is_float_tensor (h p) \<Longrightarrow> nonfloat_loop h us i = Inr ()"
  by (induction us arbitrary: i) simp_all

lemma get_tensor_name_None:
  "length ap = length an \<Longrightarrow> get_tensor_name ap an p = None \<longleftrightarrow> p \<notin> set ap"
  by (induction ap an rule: list_induct2) auto

lemma excess_loop_members:
  assumes "\<forall>p\<in>set us. p \<notin> set op \<longrightarrow> get_tensor_name ap an p \<noteq> None"
  shows "excess_loop ap an op us i acc
           = Inr (acc @ map (\<lambda>p. the (get_tensor_name ap an p)) (filter (\<lambda>p. p \<notin> set op) us))"
  using assms by (induction us arbitrary: i acc) auto

lemma excess_loop_result:
  "(\<exists>j. excess_loop ap an op us i acc = Inl (GetSetParamsError (NotMember j)))
   \<or> excess_loop ap an op us i acc
        = Inr (acc @ map (\<lambda>p. the (get_tensor_name ap an p)) (filter (\<lambda>p. p \<notin> set op) us))"
proof (induction us arbitrary: i acc)
  case Nil
  then show ?case by simp
next
  case (Cons p us)
  show ?case
  proof (cases "p \<in> set op")
    case True
    then show ?thesis using Cons[of "Suc i" acc] by simp
  next
    case False
    show ?thesis
    proof (cases "get_tensor_name ap an p")
      case None
      then show ?thesis using False by simp
    next
      case (Some nm)
      then show ?thesis using False Cons[of "Suc i" "acc @ [nm]"] by simp
    qed
  qed
qed

lemma missing_names_member:
  assumes "length on = length op" and "i < length op" and "op ! i \<notin> set us"
  shows "on ! i \<in> set (missing_names on op us)"
proof -
  have "(on ! i, op ! i) \<in> set (zip on op)"
    using assms(1,2) by (auto simp: in_set_zip)
  then have "(on ! i, op ! i) \<in> set (filter (\<lambda>np. snd np \<notin> set us) (zip on op))"
    using assms(3) by simp
  then show ?thesis unfolding missing_names_def by force
qed

lemma operating_loop_lengths:
  "operating_loop gs i an at (ns, ps) = Inr (ns', ps') \<Longrightarrow> length ns = length ps \<Longrightarrow>
     length ns' = length ps'"
proof (induction gs arbitrary: i ns ps)
  case Nil
  then show ?case by simp
next
  case (Cons g gs)
  show ?case
  proof (cases g)
    case False
    then show ?thesis using Cons by simp
  next
    case True
    then have in_range: "i < length an \<and> i < length at"
      using Cons.prems(1) by (auto split: if_splits)
    then have "operating_loop gs (Suc i) an at (ns @ [an ! i], ps @ [at ! i]) = Inr (ns', ps')"
      using Cons.prems(1) True by simp
    then show ?thesis using Cons.IH[of "Suc i" "ns @ [an ! i]" "ps @ [at ! i]"] Cons.prems(2)
      by simp
  qed
qed

lemma get_items_lengths:
  "traverse_items obj ks fmt prefix get_action c md (ids, (res, names), h) = Inr (ids', (res', names'), h')
   \<Longrightarrow> length res = length names \<Longrightarrow> length res' = length names'"
proof (induction ks arbitrary: ids res names)
  case Nil
  then show ?case by simp
next
  case (Cons k ks)
  from Cons.prems(1) obtain e where e: "get_item (h obj) k = Some e"
    by (cases "get_item (h obj) k") auto
  show ?case
  proof (cases "e \<in> set ids")
    case True
    then show ?thesis using Cons e by simp
  next
    case False
    show ?thesis
    proof (cases "c (h e)")
      case True
      then have "traverse_items obj ks fmt prefix get_action c md
                   (ids @ [e], (res @ [e], names @ [format_name fmt prefix k]), h)
                 = Inr (ids', (res', names'), h')"
        using Cons.prems(1) e False by (simp add: get_action_apply)
      then show ?thesis using Cons.IH Cons.prems(2) by simp
    next
      case nc: False
      show ?thesis
      proof (cases "has_dict (h e) \<or> has_iter (h e)")
        case True
        then have "traverse_items obj (k # ks) fmt prefix get_action c md (ids, (res, names), h)
                     = Inl (if md > 0 then TypeError else RecursionError)"
          using e False nc by (simp add: traverse_obj_no_crit)
        then show ?thesis using Cons.prems(1) by simp
      next
        case nk: False
        then have "traverse_items obj ks fmt prefix get_action c md (ids @ [e], (res, names), h)
                     = Inr (ids', (res', names'), h')"
          using Cons.prems(1) e False nc by simp
        then show ?thesis using Cons.IH Cons.prems(2) by simp
      qed
    qed
  qed
qed

lemma get_tensors_lengths:
  "get_tensors h obj prefix md = Inr (res, names) \<Longrightarrow> length res = length names"
proof -
  assume g: "get_tensors h obj prefix md = Inr (res, names)"
  then obtain ks where ks: "obj_keys (h obj) = Some ks"
    by (cases "obj_keys (h obj)") (auto simp: get_tensors_def)
  from g ks obtain ids h' where
    "traverse_items obj ks (if has_dict (h obj) then Dotted else Bracketed) prefix get_action
       is_float_tensor md ([], ([], []), h) = Inr (ids, (res, names), h')"
    by (auto simp: get_tensors_def split: sum.splits)
  from get_items_lengths[OF this] show ?thesis by simp
qed

lemma list_operating_params_lengths:
  "list_operating_params probe hn self = Inr (names, params, hn') \<Longrightarrow> length names = length params"
  by (auto simp: list_operating_params_def split: sum.splits prod.splits
           dest!: operating_loop_lengths)

lemma check_params_floats:
  assumes "\<forall>p\<in>set us. is_float_tensor (h p)"
  shows "check_params h ap an on op us =
           (if missing_names on op us = [] then [] else [missing_names on op us],
            excess_verdict (excess_loop ap an op us 0 []))"
  using nonfloat_loop_ok[OF assms, of 0]
  by (simp add: check_params_def excess_verdict_def Let_def split: sum.splits)

text \<open>
  C4. Suppose \<^verbatim>\<open>__assert_get_correct_params\<close> reaches the check of lines 184--217: the
  object's tensors were collected (\<open>all_params\<close>, under \<open>all_names\<close>), the probing returned the
  tensors that received a gradient (\<open>oper_params\<close>, under \<open>oper_names\<close>), and every declared
  parameter (\<open>user_params\<close>) is a float tensor. Then
  \<^item> the warnings are exactly one warning with the names of the tensors that received a
    gradient and are not declared, or none when there is no such tensor; each such tensor
    is named in it;
  \<^item> a warning does not end the function: when every declared parameter received a
    gradient the function returns normally, whatever was missing;
  \<^item> a declared parameter that received no gradient and is among the object's tensors
    makes the function raise \<^verbatim>\<open>GetSetParamsError\<close>; unless some declared parameter without a
    gradient is no member of the object (that one is reported first), the error is the
    excess-parameters error, and it names every declared parameter without a gradient.
\<close>

theorem probing_check_verdicts:
  assumes "get_tensors (fst hn) self ''self'' 20 = Inr (all_params, all_names)"
    and "list_operating_params probe hn self = Inr (oper_names, oper_params, hn')"
    and "getparams hn' = Inr user_params"
    and "\<forall>p\<in>set user_params. is_float_tensor (fst hn' p)"
  shows "\<exists>verdict.
           assert_get_correct_params probe getparams hn self
             = (if missing_names oper_names oper_params user_params = [] then []
                else [missing_names oper_names oper_params user_params], verdict)
         \<and> (\<forall>i<length oper_params. oper_params ! i \<notin> set user_params \<longrightarrow>
                oper_names ! i \<in> set (missing_names oper_names oper_params user_params))
         \<and> ((\<forall>p\<in>set user_params. p \<in> set oper_params) \<longrightarrow> verdict = Inr ())
         \<and> ((\<exists>p\<in>set user_params. p \<notin> set oper_params \<and> p \<in> set all_params) \<longrightarrow>
                (\<exists>k. verdict = Inl (GetSetParamsError k)))
         \<and> ((\<exists>p\<in>set user_params. p \<notin> set oper_params)
              \<and> (\<forall>p\<in>set user_params. p \<notin> set oper_params \<longrightarrow> p \<in> set all_params) \<longrightarrow>
                (\<exists>names. verdict = Inl (GetSetParamsError (ExcessParams names))
                   \<and> (\<forall>p\<in>set user_params. p \<notin> set oper_params \<longrightarrow>
                         (\<exists>nm\<in>set names. get_tensor_name all_params all_names p = Some nm))))"
proof -
  let ?missing = "missing_names oper_names oper_params user_params"
  let ?loop = "excess_loop all_params all_names oper_params user_params 0 []"
  let ?verdict = "excess_verdict ?loop"
  let ?names = "map (\<lambda>p. the (get_tensor_name all_params all_names p))
                  (filter (\<lambda>p. p \<notin> set oper_params) user_params)"
  have len_all: "length all_params = length all_names"
    using get_tensors_lengths[OF assms(1)] .
  have len_oper: "length oper_names = length oper_params"
    using list_operating_params_lengths[OF assms(2)] .
  have run: "assert_get_correct_params probe getparams hn self
               = (if ?missing = [] then [] else [?missing], ?verdict)"
    using assms(1,2,3) check_params_floats[OF assms(4)]
    by (simp add: assert_get_correct_params_def)
  have missing: "\<forall>i<length oper_params. oper_params ! i \<notin> set user_params \<longrightarrow>
                   oper_names ! i \<in> set ?missing"
    using missing_names_member[OF len_oper] by blast
  have none: "?verdict = Inr ()" if "\<forall>p\<in>set user_params. p \<in> set oper_params"
  proof -
    have "filter (\<lambda>p. p \<notin> set oper_params) user_params = []" using that by (simp add: filter_empty_conv)
    moreover have "?loop = Inr ([] @ ?names)"
      using that by (intro excess_loop_members) simp
    ultimately show ?thesis by (simp add: excess_verdict_def)
  qed
  have members: "?verdict = Inl (GetSetParamsError (ExcessParams ?names))
                 \<and> (\<forall>p\<in>set user_params. p \<notin> set oper_params \<longrightarrow>
                       (\<exists>nm\<in>set ?names. get_tensor_name all_params all_names p = Some nm))"
    if ex: "\<exists>p\<in>set user_params. p \<notin> set oper_params"
      and mem: "\<forall>p\<in>set user_params. p \<notin> set oper_params \<longrightarrow> p \<in> set all_params"
  proof -
    have found: "\<forall>p\<in>set user_params. p \<notin> set oper_params \<longrightarrow>
                   get_tensor_name all_params all_names p \<noteq> None"
      using mem get_tensor_name_None[OF len_all] by simp
    then have l: "?loop = Inr ([] @ ?names)" by (rule excess_loop_members)
    have ne: "?names \<noteq> []" using ex by (simp add: filter_empty_conv)
    have v: "?verdict = Inl (GetSetParamsError (ExcessParams ?names))"
      using l ne by (simp add: excess_verdict_def)
    have "\<exists>nm\<in>set ?names. get_tensor_name all_params all_names p = Some nm"
      if p: "p \<in> set user_params" "p \<notin> set oper_params" for p
    proof -
      from found p obtain nm where nm: "get_tensor_name all_params all_names p = Some nm" by auto
      have "the (get_tensor_name all_params all_names p) \<in> set ?names" using p by simp
      then show ?thesis using nm by simp
    qed
    then show ?thesis using v by blast
  qed
  have fatal: "\<exists>k. ?verdict = Inl (GetSetParamsError k)"
    if ex: "\<exists>p\<in>set user_params. p \<notin> set oper_params \<and> p \<in> set all_params"
  proof -
    from excess_loop_result[of all_params all_names oper_params user_params 0 "[]"]
    show ?thesis
    proof
      assume "\<exists>j. ?loop = Inl (GetSetParamsError (NotMember j))"
      then show ?thesis by (auto simp: excess_verdict_def)
    next
      assume l: "?loop = Inr ([] @ ?names)"
      have "?names \<noteq> []" using ex by (auto simp: filter_empty_conv)
      then show ?thesis using l by (simp add: excess_verdict_def)
    qed
  qed
  show ?thesis
    using run missing none members fatal by blast
qed

theorem probing_check_verdicts_witness:
  "get_tensors (fst (probe_store, 100::addr)) 10 ''self'' 20
     = Inr ([1, 2, 3], [''self.w'', ''self.b'', ''self.c''])
   \<and> (\<exists>hn'. list_operating_params example_probe (probe_store, 100::addr) 10
               = Inr ([''self.w'', ''self.b''], [1, 2], hn')
          \<and> example_declared hn' = Inr [1, 3]
          \<and> is_float_tensor (fst hn' 1) \<and> is_float_tensor (fst hn' 3))
   \<and> missing_names [''self.w'', ''self.b''] [1, 2] [1, 3] = [''self.b'']
   \<and> (\<exists>names. assert_get_correct_params example_probe example_declared (probe_store, 100::addr) 10
                 = ([[''self.b'']], Inl (GetSetParamsError (ExcessParams names)))
          \<and> get_tensor_name [1, 2, 3] [''self.w'', ''self.b'', ''self.c''] 3 = Some ''self.c''
          \<and> ''self.c'' \<in> set names)"
proof -
  have g: "get_tensors (fst (probe_store, 100::addr)) 10 ''self'' 20
             = Inr ([1, 2, 3], [''self.w'', ''self.b'', ''self.c''])"
    by (simp add: store_eval probe_store_def)
  have l: "\<exists>hn'. list_operating_params example_probe (probe_store, 100::addr) 10
               = Inr ([''self.w'', ''self.b''], [1, 2], hn')
          \<and> example_declared hn' = Inr [1, 3]
          \<and> is_float_tensor (fst hn' 1) \<and> is_float_tensor (fst hn' 3)"
    by (simp add: list_operating_params_def store_eval probe_store_def example_probe_def
          example_declared_def)
  then obtain hn' where hn':
    "list_operating_params example_probe (probe_store, 100::addr) 10
       = Inr ([''self.w'', ''self.b''], [1, 2], hn')"
    "example_declared hn' = Inr [1, 3]"
    "is_float_tensor (fst hn' 1)" "is_float_tensor (fst hn' 3)" by blast
  have fl: "\<forall>p\<in>set [1, 3]. is_float_tensor (fst hn' p)" using hn'(3,4) by simp
  have m: "missing_names [''self.w'', ''self.b''] [1, 2] [1, 3] = [''self.b'']"
    by (simp add: missing_names_def)
  have n: "get_tensor_name [1, 2, 3] [''self.w'', ''self.b'', ''self.c''] 3 = Some ''self.c''"
    by simp
  note t = probing_check_verdicts[where getparams=example_declared and probe=example_probe
      and hn="(probe_store, 100::addr)" and self=10, OF g hn'(1) hn'(2) fl]
  from t obtain verdict where v:
    "assert_get_correct_params example_probe example_declared (probe_store, 100::addr) 10
       = (if missing_names [''self.w'', ''self.b''] [1, 2] [1, 3] = [] then []
          else [missing_names [''self.w'', ''self.b''] [1, 2] [1, 3]], verdict)"
    "(\<exists>p\<in>set [1, 3 :: addr]. p \<notin> set [1, 2])
       \<and> (\<forall>p\<in>set [1, 3 :: addr]. p \<notin> set [1, 2] \<longrightarrow> p \<in> set [1, 2, 3]) \<longrightarrow>
         (\<exists>names. verdict = Inl (GetSetParamsError (ExcessParams names))
            \<and> (\<forall>p\<in>set [1, 3]. p \<notin> set [1, 2] \<longrightarrow>
                  (\<exists>nm\<in>set names. get_tensor_name [1, 2, 3] [''self.w'', ''self.b'', ''self.c''] p
                       = Some nm)))"
    by blast
  have pre: "(\<exists>p\<in>set [1, 3 :: addr]. p \<notin> set [1, 2])
       \<and> (\<forall>p\<in>set [1, 3 :: addr]. p \<notin> set [1, 2] \<longrightarrow> p \<in> set [1, 2, 3])" by simp
  from v(2)[rule_format, OF pre] obtain names where names:
    "verdict = Inl (GetSetParamsError (ExcessParams names))"
    "\<forall>p\<in>set [1, 3]. p \<notin> set [1, 2] \<longrightarrow>
       (\<exists>nm\<in>set names. get_tensor_name [1, 2, 3] [''self.w'', ''self.b'', ''self.c''] p = Some nm)"
    by blast
  from names(2) have "\<exists>nm\<in>set names.
      get_tensor_name [1, 2, 3] [''self.w'', ''self.b'', ''self.c''] 3 = Some nm" by simp
  then have c: "''self.c'' \<in> set names" using n by simp
  have a: "assert_get_correct_params example_probe example_declared (probe_store, 100::addr) 10
             = ([[''self.b'']], Inl (GetSetParamsError (ExcessParams names)))"
    using v(1) m names(1) by simp
  have last: "\<exists>names. assert_get_correct_params example_probe example_declared
                 (probe_store, 100::addr) 10
                 = ([[''self.b'']], Inl (GetSetParamsError (ExcessParams names)))
          \<and> get_tensor_name [1, 2, 3] [''self.w'', ''self.b'', ''self.c''] 3 = Some ''self.c''
          \<and> ''self.c'' \<in> set names"
    using a n c by blast
  show ?thesis
    using g l m last by (intro conjI)
qed


end
